theory Spec2Isabelle
  imports Complex_Main
begin

section \<open>The WebM/Opus worker of opus-media-recorder\<close>

text \<open>
  A shallow embedding of \<^verbatim>\<open>src/WebMOpusWorker.js\<close>. The class \<^verbatim>\<open>WebMOpusWorker\<close> stages
  interleaved samples in a buffer of one frame, and hands every full frame to the Speex
  resampler, the Opus encoder and the WebM container writer. Those three are foreign
  (WebAssembly) code: the model records every call to them in a trace and takes the
  values they return from a record of oracles, so that every theorem holds for every
  behaviour of the libraries.
\<close>

subsection \<open>Configuration\<close>

definition OPUS_APPLICATION :: nat where
  "OPUS_APPLICATION = 2049"

definition OPUS_OUTPUT_SAMPLE_RATE :: nat where
  "OPUS_OUTPUT_SAMPLE_RATE = 48000"

definition OPUS_OUTPUT_MAX_LENGTH :: nat where
  "OPUS_OUTPUT_MAX_LENGTH = 4000"

definition OPUS_FRAME_SIZE :: nat where
  "OPUS_FRAME_SIZE = 20"

definition SPEEX_RESAMPLE_QUALITY :: nat where
  "SPEEX_RESAMPLE_QUALITY = 6"

definition BUFFER_LENGTH :: nat where
  "BUFFER_LENGTH = 4096"

definition OPUS_OK :: int where
  "OPUS_OK = 0"

definition OPUS_SET_BITRATE_REQUEST :: nat where
  "OPUS_SET_BITRATE_REQUEST = 4002"

definition RESAMPLER_ERR_SUCCESS :: int where
  "RESAMPLER_ERR_SUCCESS = 0"

subsection \<open>Foreign resources, the trace of foreign calls, errors\<close>

text \<open>
  The native resources the worker acquires: the container writer
  (\<^verbatim>\<open>new Module.WebMContainer\<close>), the encoder (\<^verbatim>\<open>_opus_encoder_create\<close>), the resampler
  (\<^verbatim>\<open>_speex_resampler_init\<close>) and the three buffers allocated on the WebAssembly heap
  (\<^verbatim>\<open>mInputBuffer\<close>, \<^verbatim>\<open>mResampledBuffer\<close>, \<^verbatim>\<open>mOutputBuffer\<close>). The one-word cells
  (\<^verbatim>\<open>WasmUint32\<close>, \<^verbatim>\<open>WasmInt32\<close>) that carry a status or a length are allocated and freed
  inside a single statement sequence, before any \<^verbatim>\<open>throw\<close>, and are left out of the trace.
\<close>

datatype resource =
  ContainerWriter | OpusEncoder | SpeexResampler | InputBuffer | ResampledBuffer | OutputBuffer

text \<open>
  One event per foreign call, in program order. \<open>ResamplerProcess\<close> carries the contents of
  the staging buffer the resampler reads and the two lengths passed to it;
  \<open>OpusEncodeFloat\<close> the frame size and the capacity of the output buffer; \<open>WriteFrame\<close> the
  packet length and the frame's duration in samples.
\<close>

datatype 'a event =
    Acquire resource
  | Release resource
  | EncoderCtl nat int
  | ResamplerProcess "'a list" rat rat
  | OpusEncodeFloat rat nat
  | WriteFrame int rat

text \<open>
  The Emscripten \<^verbatim>\<open>Module\<close>: what each foreign function returns. The two creation functions
  give the status they store in \<^verbatim>\<open>mErr\<close>; the resampler and the encoder may depend on
  everything that happened before (they are stateful), so they read the trace.
\<close>

record 'a wasm_module =
  opus_encoder_create :: "nat \<Rightarrow> nat \<Rightarrow> nat \<Rightarrow> int"
  speex_resampler_init :: "nat \<Rightarrow> nat \<Rightarrow> nat \<Rightarrow> nat \<Rightarrow> int"
  speex_resampler_process_interleaved_float :: "'a event list \<Rightarrow> 'a list \<Rightarrow> int"
  opus_encode_float :: "'a event list \<Rightarrow> int"

text \<open>The exceptions: the four \<^verbatim>\<open>throw new Error(...)\<close> of the source, and JavaScript's
  own \<^verbatim>\<open>TypeError\<close> on a property access of \<^verbatim>\<open>undefined\<close>.\<close>

datatype error =
    OpusInitFailed
  | ResamplerInitFailed
  | ResamplingError
  | OpusEncodingError
  | TypeError

subsection \<open>The worker object\<close>

text \<open>
  The fields of \<^verbatim>\<open>this\<close>. \<open>mInputBuffer\<close> is the staging buffer (its length is the
  capacity), \<open>interleavedBuffers\<close> the scratch buffer (\<^verbatim>\<open>undefined\<close> is \<open>None\<close>), and
  \<open>calls\<close> the trace of foreign calls so far. The contents of \<^verbatim>\<open>mResampledBuffer\<close> and
  \<^verbatim>\<open>mOutputBuffer\<close> are written and read by foreign code only and are not modelled.
\<close>

record 'a worker =
  inputSampleRate :: nat
  channelCount :: nat
  inputSamplesPerChannel :: rat
  outputSamplePerChannel :: rat
  inputBufferIndex :: nat
  mInputBuffer :: "'a list"
  interleavedBuffers :: "'a list option"
  calls :: "'a event list"

text \<open>
  Modelled from the spec: the class \<^verbatim>\<open>WasmFloat32Buffer\<close> of \<^verbatim>\<open>commonFunctions.js\<close>, which
  is not among the sources. The spec describes it as an owned sequence of samples of fixed
  capacity; a JavaScript typed array of a fractional size has the integer part of the size
  as its length. Its contents start as zeros here; no theorem below depends on them.
\<close>

definition WasmFloat32Buffer :: "rat \<Rightarrow> ('a::zero) list" where
  "WasmFloat32Buffer n = replicate (nat \<lfloor>n\<rfloor>) 0"

text \<open>
  Modelled from the spec: \<^verbatim>\<open>WasmFloat32Buffer.set(src, offset)\<close>, the copy of \<open>src\<close> into
  the buffer from index \<open>offset\<close> on (spec 4.1 b: "append interleaved samples into
  StagingBuffer starting at its current cursor"). The caller never passes more than fits.
\<close>

definition buffer_set :: "'a list \<Rightarrow> 'a list \<Rightarrow> nat \<Rightarrow> 'a list" where
  "buffer_set buf src offset = take offset buf @ src @ drop (offset + length src) buf"

subsection \<open>The constructor\<close>

text \<open>\<^verbatim>\<open>OpusInitCodec\<close>: create the encoder, throw if the status is not \<^verbatim>\<open>OPUS_OK\<close>, then
  set the bit rate when one is given (\<^verbatim>\<open>if (bitRate)\<close>: defined and not zero). A creation
  that reports failure hands out no encoder (libopus returns a null pointer then, and so
  does the resampler's), so the trace records an acquisition only on success. The functions
  return the trace: on a \<^verbatim>\<open>throw\<close> the object is lost but the foreign resources are not.\<close>

definition OpusSetOpusControl :: "'a event list \<Rightarrow> nat \<Rightarrow> int \<Rightarrow> 'a event list" where
  "OpusSetOpusControl tr request vaArg = tr @ [EncoderCtl request vaArg]"

definition OpusInitCodec ::
  "'a wasm_module \<Rightarrow> 'a event list \<Rightarrow> nat \<Rightarrow> nat \<Rightarrow> int option \<Rightarrow> (error \<times> 'a event list) + 'a event list"
where
  "OpusInitCodec M tr outRate chCount bitRate =
     (let err = opus_encoder_create M outRate chCount OPUS_APPLICATION in
      if err \<noteq> OPUS_OK then Inl (OpusInitFailed, tr)
      else
        (let tr1 = tr @ [Acquire OpusEncoder] in
         case bitRate of
           None \<Rightarrow> Inr tr1
         | Some b \<Rightarrow>
             if b \<noteq> 0 then Inr (OpusSetOpusControl tr1 OPUS_SET_BITRATE_REQUEST b)
             else Inr tr1))"

definition SpeexInitResampler ::
  "'a wasm_module \<Rightarrow> 'a event list \<Rightarrow> nat \<Rightarrow> nat \<Rightarrow> nat \<Rightarrow> (error \<times> 'a event list) + 'a event list"
where
  "SpeexInitResampler M tr inputRate outputRate chCount =
     (let err = speex_resampler_init M chCount inputRate outputRate SPEEX_RESAMPLE_QUALITY in
      if err \<noteq> RESAMPLER_ERR_SUCCESS then Inl (ResamplerInitFailed, tr)
      else Inr (tr @ [Acquire SpeexResampler]))"

text \<open>The constructor proper. The division is JavaScript's division of numbers, so the
  frame lengths are rationals.\<close>

definition WebMOpusWorker ::
  "('a::zero) wasm_module \<Rightarrow> nat \<Rightarrow> nat \<Rightarrow> int option \<Rightarrow> (error \<times> 'a event list) + 'a worker"
where
  "WebMOpusWorker M inputSampleRate' channelCount' bitsPerSecond =
     (let tr0 = [Acquire ContainerWriter] in
      case OpusInitCodec M tr0 OPUS_OUTPUT_SAMPLE_RATE channelCount' bitsPerSecond of
        Inl e \<Rightarrow> Inl e
      | Inr tr1 \<Rightarrow>
         (case SpeexInitResampler M tr1 inputSampleRate' OPUS_OUTPUT_SAMPLE_RATE channelCount' of
            Inl e \<Rightarrow> Inl e
          | Inr tr2 \<Rightarrow>
             (let inSamples = of_nat inputSampleRate' * of_nat OPUS_FRAME_SIZE / 1000;
                  outSamples = of_nat OPUS_OUTPUT_SAMPLE_RATE * of_nat OPUS_FRAME_SIZE / 1000
              in Inr \<lparr> inputSampleRate = inputSampleRate',
                       channelCount = channelCount',
                       inputSamplesPerChannel = inSamples,
                       outputSamplePerChannel = outSamples,
                       inputBufferIndex = 0,
                       mInputBuffer = WasmFloat32Buffer (inSamples * of_nat channelCount'),
                       interleavedBuffers =
                         (if channelCount' \<noteq> 1
                          then Some (replicate (BUFFER_LENGTH * channelCount') 0)
                          else None),
                       calls = tr2 @ [Acquire InputBuffer, Acquire ResampledBuffer,
                                      Acquire OutputBuffer] \<rparr>)))"

subsection \<open>Interleaving\<close>

text \<open>
  The inner loop of \<^verbatim>\<open>interleave\<close>, from index \<open>i\<close> on: \<^verbatim>\<open>interleavedBuffers[i * chCount + ch]
  = buffer[i]\<close>. A store beyond the end of a \<^verbatim>\<open>Float32Array\<close> does nothing.
\<close>

fun write_channel :: "nat \<Rightarrow> nat \<Rightarrow> nat \<Rightarrow> 'a list \<Rightarrow> 'a list \<Rightarrow> 'a list" where
  "write_channel chCount ch i [] scratch = scratch"
| "write_channel chCount ch i (x # buffer) scratch =
     write_channel chCount ch (Suc i) buffer
       (if i * chCount + ch < length scratch then scratch[i * chCount + ch := x] else scratch)"

text \<open>The outer loop, from channel \<open>ch\<close> on.\<close>

fun write_channels :: "nat \<Rightarrow> nat \<Rightarrow> 'a list list \<Rightarrow> 'a list \<Rightarrow> 'a list" where
  "write_channels chCount ch [] scratch = scratch"
| "write_channels chCount ch (buffer # rest) scratch =
     write_channels chCount (Suc ch) rest (write_channel chCount ch 0 buffer scratch)"

text \<open>
  \<^verbatim>\<open>interleave\<close> returns the stream (or \<^verbatim>\<open>undefined\<close>, \<open>None\<close>) and the worker, whose scratch
  buffer it has written. With one channel buffer it returns that buffer. Without a scratch
  buffer (a worker constructed for one channel) the first store throws a \<^verbatim>\<open>TypeError\<close>;
  when there is nothing to store the function returns \<^verbatim>\<open>undefined\<close>.
\<close>

definition interleave :: "'a worker \<Rightarrow> 'a list list \<Rightarrow> error + ('a list option \<times> 'a worker)" where
  "interleave s channelBuffers =
     (let chCount = length channelBuffers in
      if chCount = 1 then Inr (Some (hd channelBuffers), s)
      else
        (case interleavedBuffers s of
           None \<Rightarrow> if concat channelBuffers \<noteq> [] then Inl TypeError else Inr (None, s)
         | Some scratch \<Rightarrow>
             (let scratch' = write_channels chCount 0 channelBuffers scratch
              in Inr (Some scratch', s\<lparr> interleavedBuffers := Some scratch' \<rparr>))))"

subsection \<open>Feeding samples\<close>

text \<open>The body of \<^verbatim>\<open>if (this.inputBufferIndex >= this.mInputBuffer.length)\<close>: resample,
  encode, write the frame, reset the cursor. A \<^verbatim>\<open>throw\<close> leaves the worker as it is then.\<close>

definition flush :: "'a wasm_module \<Rightarrow> 'a worker \<Rightarrow> (error \<times> 'a worker) + 'a worker" where
  "flush M s =
     (let err = speex_resampler_process_interleaved_float M (calls s) (mInputBuffer s);
          s1 = s\<lparr> calls := calls s @ [ResamplerProcess (mInputBuffer s)
                                        (inputSamplesPerChannel s) (outputSamplePerChannel s)] \<rparr>
      in if err \<noteq> RESAMPLER_ERR_SUCCESS then Inl (ResamplingError, s1)
         else
           (let packetLength = opus_encode_float M (calls s1);
                s2 = s1\<lparr> calls := calls s1 @ [OpusEncodeFloat (outputSamplePerChannel s)
                                                OPUS_OUTPUT_MAX_LENGTH] \<rparr>
            in if packetLength < 0 then Inl (OpusEncodingError, s2)
               else Inr (s2\<lparr> calls := calls s2 @ [WriteFrame packetLength
                                                     (outputSamplePerChannel s)],
                              inputBufferIndex := 0 \<rparr>)))"

text \<open>The number of samples the next copy takes. The cursor never exceeds the capacity
  (it starts at 0, and every iteration keeps it so), so the difference on naturals is the
  difference of the source.\<close>

definition lengthToCopy :: "'a worker \<Rightarrow> 'a list \<Rightarrow> nat \<Rightarrow> nat" where
  "lengthToCopy s samples sampleIndex =
     min (length (mInputBuffer s) - inputBufferIndex s) (length samples - sampleIndex)"

text \<open>The copy at the head of the loop body: \<^verbatim>\<open>mInputBuffer.set(samples.subarray(...),
  inputBufferIndex)\<close> and the advance of the cursor.\<close>

definition copy_samples :: "'a worker \<Rightarrow> 'a list \<Rightarrow> nat \<Rightarrow> 'a worker" where
  "copy_samples s samples sampleIndex =
     (let n = lengthToCopy s samples sampleIndex
      in s\<lparr> mInputBuffer :=
               buffer_set (mInputBuffer s) (take n (drop sampleIndex samples))
                 (inputBufferIndex s),
             inputBufferIndex := inputBufferIndex s + n \<rparr>)"

text \<open>One iteration of the \<^verbatim>\<open>while\<close> loop, up to the update of \<^verbatim>\<open>sampleIndex\<close>.\<close>

definition encode_step ::
  "'a wasm_module \<Rightarrow> 'a list \<Rightarrow> nat \<Rightarrow> 'a worker \<Rightarrow> (error \<times> 'a worker) + 'a worker"
where
  "encode_step M samples sampleIndex s =
     (let s1 = copy_samples s samples sampleIndex
      in if inputBufferIndex s1 \<ge> length (mInputBuffer s1) then flush M s1 else Inr s1)"

text \<open>The loop. With a staging buffer of capacity 0 every iteration copies nothing, and the
  loop goes on for as long as the flush does not throw; so the result is an option, and
  \<open>None\<close> is a loop that runs for ever.\<close>

partial_function (option) encode_loop ::
  "'a wasm_module \<Rightarrow> 'a list \<Rightarrow> nat \<Rightarrow> 'a worker \<Rightarrow> ((error \<times> 'a worker) + 'a worker) option"
where
  "encode_loop M samples sampleIndex s =
     (if sampleIndex < length samples then
        (case encode_step M samples sampleIndex s of
           Inl e \<Rightarrow> Some (Inl e)
         | Inr s' \<Rightarrow> encode_loop M samples (sampleIndex + lengthToCopy s samples sampleIndex) s')
      else Some (Inr s))"

declare encode_loop.simps [code]

text \<open>\<^verbatim>\<open>encode(buffers, final)\<close>. The branch \<^verbatim>\<open>if (final) { }\<close> is empty in the source.\<close>

definition encode ::
  "'a wasm_module \<Rightarrow> 'a worker \<Rightarrow> 'a list list \<Rightarrow> bool \<Rightarrow> ((error \<times> 'a worker) + 'a worker) option"
where
  "encode M s buffers final =
     (case interleave s buffers of
        Inl e \<Rightarrow> Some (Inl (e, s))
      | Inr (None, s1) \<Rightarrow> Some (Inl (TypeError, s1))
      | Inr (Some samples, s1) \<Rightarrow>
          (case encode_loop M samples 0 s1 of
             None \<Rightarrow> None
           | Some r \<Rightarrow> if final then Some r else Some r))"

subsection \<open>Closing\<close>

text \<open>\<^verbatim>\<open>close()\<close>: six calls that release, in the order of the source. It tests nothing and
  assigns to no field.\<close>

definition close :: "'a worker \<Rightarrow> 'a worker" where
  "close s =
     s\<lparr> calls := calls s @ [Release ContainerWriter, Release InputBuffer,
                             Release ResampledBuffer, Release OutputBuffer,
                             Release OpusEncoder, Release SpeexResampler] \<rparr>"

subsection \<open>Observations on a worker and on a trace\<close>

text \<open>The capacity of the staging buffer, and the samples staged so far (those below the
  cursor).\<close>

definition capacity :: "'a worker \<Rightarrow> nat" where
  "capacity s = length (mInputBuffer s)"

definition staged :: "'a worker \<Rightarrow> 'a list" where
  "staged s = take (inputBufferIndex s) (mInputBuffer s)"

text \<open>The frames handed to the resampler, oldest first.\<close>

fun frames :: "'a event list \<Rightarrow> 'a list list" where
  "frames [] = []"
| "frames (ResamplerProcess f a b # es) = f # frames es"
| "frames (e # es) = frames es"

text \<open>Everything the worker has taken in: the frames already handed on, then what is
  staged.\<close>

definition stream :: "'a worker \<Rightarrow> 'a list" where
  "stream s = concat (frames (calls s)) @ staged s"

text \<open>A trace that consists of whole resample, encode, write cycles, in that order.\<close>

fun cycles :: "'a event list \<Rightarrow> bool" where
  "cycles [] = True"
| "cycles (ResamplerProcess f a b # OpusEncodeFloat c d # WriteFrame p e # es) = cycles es"
| "cycles es = False"

text \<open>The events a call has added to the trace.\<close>

definition added :: "'a worker \<Rightarrow> 'a worker \<Rightarrow> 'a event list" where
  "added s s' = drop (length (calls s)) (calls s')"

text \<open>The resources that are acquired and not released at the end of a trace, and the
  resources a trace releases, in order.\<close>

fun track :: "resource set \<Rightarrow> 'a event \<Rightarrow> resource set" where
  "track L (Acquire r) = insert r L"
| "track L (Release r) = L - {r}"
| "track L e = L"

definition live :: "'a event list \<Rightarrow> resource set" where
  "live tr = foldl track {} tr"

fun released :: "'a event list \<Rightarrow> resource list" where
  "released [] = []"
| "released (Release r # es) = r # released es"
| "released (e # es) = released es"

text \<open>The worker a call leaves behind, whether it returned or threw.\<close>

fun state_of :: "(error \<times> 'a worker) + 'a worker \<Rightarrow> 'a worker" where
  "state_of (Inl (e, s)) = s"
| "state_of (Inr s) = s"

text \<open>A sequence of \<^verbatim>\<open>encode\<close> calls, as the message handler makes them one after the
  other; it stops at the first call that throws.\<close>

fun feed_all ::
  "'a wasm_module \<Rightarrow> 'a worker \<Rightarrow> ('a list list \<times> bool) list \<Rightarrow>
     ((error \<times> 'a worker) + 'a worker) option"
where
  "feed_all M s [] = Some (Inr s)"
| "feed_all M s ((buffers, final) # rest) =
     (case encode M s buffers final of
        None \<Rightarrow> None
      | Some (Inl e) \<Rightarrow> Some (Inl e)
      | Some (Inr s') \<Rightarrow> feed_all M s' rest)"

text \<open>What a run of the loop that returns has done to the worker, for the samples \<open>xs\<close>
  it took: the capacity is as before, the stream has grown by exactly \<open>xs\<close>, the trace has
  grown by whole cycles on full frames, and the cursor is within the capacity (below it,
  if it was below it before).\<close>

definition fed :: "'a worker \<Rightarrow> 'a list \<Rightarrow> 'a worker \<Rightarrow> bool" where
  "fed s xs s' \<longleftrightarrow>
     capacity s' = capacity s \<and>
     stream s' = stream s @ xs \<and>
     (\<exists>new. calls s' = calls s @ new \<and> cycles new \<and>
            list_all (\<lambda>f. length f = capacity s) (frames new)) \<and>
     inputBufferIndex s' \<le> capacity s \<and>
     (inputBufferIndex s < capacity s \<longrightarrow> inputBufferIndex s' < capacity s) \<and>
     interleavedBuffers s' = interleavedBuffers s \<and>
     channelCount s' = channelCount s"

text \<open>What a run of the loop that threw has left: the staging buffer is full and has not
  been taken, and the exception is one of the two of the flush.\<close>

definition aborted :: "'a worker \<Rightarrow> error \<Rightarrow> 'a worker \<Rightarrow> bool" where
  "aborted s e s' \<longleftrightarrow>
     capacity s' = capacity s \<and>
     inputBufferIndex s' = capacity s \<and>
     interleavedBuffers s' = interleavedBuffers s \<and>
     channelCount s' = channelCount s \<and>
     (e = ResamplingError \<or> e = OpusEncodingError)"

text \<open>The state a worker is in between two calls: the cursor is within the capacity, and
  the scratch buffer is there, with \<^verbatim>\<open>BUFFER_LENGTH\<close> samples for every channel, exactly
  when the worker was made for a number of channels other than one.\<close>

definition ready :: "'a worker \<Rightarrow> bool" where
  "ready s \<longleftrightarrow>
     inputBufferIndex s \<le> capacity s \<and>
     (case interleavedBuffers s of
        None \<Rightarrow> channelCount s = 1
      | Some scratch \<Rightarrow>
          channelCount s \<noteq> 1 \<and> length scratch = BUFFER_LENGTH * channelCount s)"

subsection \<open>Concrete modules and workers\<close>

text \<open>A module whose calls all succeed (every packet has 7 bytes), one whose encoder
  cannot be created (\<^verbatim>\<open>OPUS_ALLOC_FAIL\<close>, -7, read as an unsigned word), one whose
  resampler cannot be created, one whose resampler fails on every frame, and one whose
  encoder fails on every frame.\<close>

definition M_ok :: "int wasm_module" where
  "M_ok = \<lparr> opus_encoder_create = (\<lambda>rate ch app. 0),
            speex_resampler_init = (\<lambda>ch inRate outRate quality. 0),
            speex_resampler_process_interleaved_float = (\<lambda>tr frame. 0),
            opus_encode_float = (\<lambda>tr. 7) \<rparr>"

definition M_no_encoder :: "int wasm_module" where
  "M_no_encoder = M_ok\<lparr> opus_encoder_create := (\<lambda>rate ch app. 4294967289) \<rparr>"

definition M_no_resampler :: "int wasm_module" where
  "M_no_resampler = M_ok\<lparr> speex_resampler_init := (\<lambda>ch inRate outRate quality. 1) \<rparr>"

definition M_bad_resampler :: "int wasm_module" where
  "M_bad_resampler = M_ok\<lparr> speex_resampler_process_interleaved_float := (\<lambda>tr frame. 1) \<rparr>"

definition M_bad_encoder :: "int wasm_module" where
  "M_bad_encoder = M_ok\<lparr> opus_encode_float := (\<lambda>tr. - 1) \<rparr>"

text \<open>The worker constructed for one channel at 200 Hz (a frame of 4 samples), and the
  one for two channels at 48000 Hz (a frame of 1920 samples).\<close>

definition mono200 :: "int worker" where
  "mono200 =
     \<lparr> inputSampleRate = 200, channelCount = 1, inputSamplesPerChannel = 4,
       outputSamplePerChannel = 960, inputBufferIndex = 0, mInputBuffer = [0, 0, 0, 0],
       interleavedBuffers = None,
       calls = [Acquire ContainerWriter, Acquire OpusEncoder, Acquire SpeexResampler,
                Acquire InputBuffer, Acquire ResampledBuffer, Acquire OutputBuffer] \<rparr>"

definition stereo48000 :: "int worker" where
  "stereo48000 =
     \<lparr> inputSampleRate = 48000, channelCount = 2, inputSamplesPerChannel = 960,
       outputSamplePerChannel = 960, inputBufferIndex = 0, mInputBuffer = replicate 1920 0,
       interleavedBuffers = Some (replicate (BUFFER_LENGTH * 2) 0),
       calls = [Acquire ContainerWriter, Acquire OpusEncoder, Acquire SpeexResampler,
                Acquire InputBuffer, Acquire ResampledBuffer, Acquire OutputBuffer] \<rparr>"

text \<open>The one-channel worker after it has been fed six samples: one frame has gone
  through the pipeline, two samples are staged.\<close>

definition mono200_fed :: "int worker" where
  "mono200_fed =
     mono200\<lparr> inputBufferIndex := 2, mInputBuffer := [5, 6, 3, 4],
              calls := calls mono200 @
                [ResamplerProcess [1, 2, 3, 4] 4 960, OpusEncodeFloat 960 4000,
                 WriteFrame 7 960] \<rparr>"

text \<open>The same worker after nine samples instead: two frames have gone through, one sample
  is staged.\<close>

definition mono200_fed9 :: "int worker" where
  "mono200_fed9 =
     mono200\<lparr> inputBufferIndex := 1, mInputBuffer := [9, 6, 7, 8],
              calls := calls mono200 @
                [ResamplerProcess [1, 2, 3, 4] 4 960, OpusEncodeFloat 960 4000, WriteFrame 7 960,
                 ResamplerProcess [5, 6, 7, 8] 4 960, OpusEncodeFloat 960 4000,
                 WriteFrame 7 960] \<rparr>"

section \<open>Lemmas about the model\<close>

subsection \<open>Traces and the copy into the staging buffer\<close>

lemma frames_append: "frames (xs @ ys) = frames xs @ frames ys"
  by (induction xs rule: frames.induct) simp_all

lemma length_buffer_set:
  "offset + length src \<le> length buf \<Longrightarrow> length (buffer_set buf src offset) = length buf"
  by (simp add: buffer_set_def)

lemma take_buffer_set:
  "offset \<le> length buf \<Longrightarrow>
   take (offset + length src) (buffer_set buf src offset) = take offset buf @ src"
  by (simp add: buffer_set_def)

lemma lengthToCopy_le:
  "lengthToCopy s samples i \<le> length samples - i"
  "inputBufferIndex s \<le> capacity s \<Longrightarrow> inputBufferIndex s + lengthToCopy s samples i \<le> capacity s"
  by (simp_all add: lengthToCopy_def capacity_def)

lemma copy_samples_facts:
  assumes "inputBufferIndex s \<le> capacity s"
  shows "capacity (copy_samples s samples i) = capacity s"
    and "inputBufferIndex (copy_samples s samples i) = inputBufferIndex s + lengthToCopy s samples i"
    and "staged (copy_samples s samples i) = staged s @ take (lengthToCopy s samples i) (drop i samples)"
    and "calls (copy_samples s samples i) = calls s"
proof -
  let ?n = "lengthToCopy s samples i"
  let ?src = "take ?n (drop i samples)"
  have len: "length ?src = ?n"
    using lengthToCopy_le(1)[of s samples i] by simp
  have fit: "inputBufferIndex s + length ?src \<le> length (mInputBuffer s)"
    using lengthToCopy_le(2)[OF assms, of samples i] len by (simp add: capacity_def)
  show "capacity (copy_samples s samples i) = capacity s"
    using length_buffer_set[OF fit] by (simp add: copy_samples_def capacity_def Let_def)
  show "inputBufferIndex (copy_samples s samples i) = inputBufferIndex s + ?n"
    by (simp add: copy_samples_def Let_def)
  have "take (inputBufferIndex s + length ?src) (buffer_set (mInputBuffer s) ?src (inputBufferIndex s))
        = take (inputBufferIndex s) (mInputBuffer s) @ ?src"
    using assms by (intro take_buffer_set) (simp add: capacity_def)
  then show "staged (copy_samples s samples i) = staged s @ ?src"
    unfolding len by (simp add: copy_samples_def staged_def Let_def)
  show "calls (copy_samples s samples i) = calls s"
    by (simp add: copy_samples_def Let_def)
qed

subsection \<open>One flush and one iteration of the loop\<close>

lemma cycles_append: "cycles xs \<Longrightarrow> cycles (xs @ ys) = cycles ys"
  by (induction xs rule: cycles.induct) simp_all

lemma flush_Inr:
  assumes "flush M s = Inr s'"
  shows "s' = s\<lparr> calls := calls s @
                 [ResamplerProcess (mInputBuffer s) (inputSamplesPerChannel s) (outputSamplePerChannel s),
                  OpusEncodeFloat (outputSamplePerChannel s) OPUS_OUTPUT_MAX_LENGTH,
                  WriteFrame (opus_encode_float M (calls s @
                     [ResamplerProcess (mInputBuffer s) (inputSamplesPerChannel s) (outputSamplePerChannel s)]))
                    (outputSamplePerChannel s)],
               inputBufferIndex := 0 \<rparr>"
  using assms by (auto simp: flush_def Let_def split: if_splits)

lemma flush_Inl:
  assumes "flush M s = Inl (e, s')"
  shows "mInputBuffer s' = mInputBuffer s" "inputBufferIndex s' = inputBufferIndex s"
    "interleavedBuffers s' = interleavedBuffers s" "channelCount s' = channelCount s"
    "e = ResamplingError \<or> e = OpusEncodingError"
  using assms by (auto simp: flush_def Let_def split: if_splits)

lemma encode_step_Inr_cases:
  assumes inv: "inputBufferIndex s \<le> capacity s"
    and step: "encode_step M samples i s = Inr s'"
  obtains (flushed) p where
      "inputBufferIndex (copy_samples s samples i) = capacity s"
      "s' = (copy_samples s samples i)\<lparr> calls := calls s @
                 [ResamplerProcess (mInputBuffer (copy_samples s samples i))
                    (inputSamplesPerChannel s) (outputSamplePerChannel s),
                  OpusEncodeFloat (outputSamplePerChannel s) OPUS_OUTPUT_MAX_LENGTH,
                  WriteFrame p (outputSamplePerChannel s)],
               inputBufferIndex := 0 \<rparr>"
    | (kept) "inputBufferIndex (copy_samples s samples i) < capacity s"
        "s' = copy_samples s samples i"
proof -
  let ?c = "copy_samples s samples i"
  note cf = copy_samples_facts[OF inv, of samples i]
  have misc: "inputSamplesPerChannel ?c = inputSamplesPerChannel s"
    "outputSamplePerChannel ?c = outputSamplePerChannel s"
    by (simp_all add: copy_samples_def Let_def)
  show thesis
  proof (cases "length (mInputBuffer ?c) \<le> inputBufferIndex ?c")
    case True
    then have fl: "flush M ?c = Inr s'"
      using step by (simp add: encode_step_def Let_def)
    have full: "inputBufferIndex ?c = capacity s"
      using True cf(1,2) lengthToCopy_le(2)[OF inv, of samples i] by (simp add: capacity_def)
    show thesis
      using flushed[OF full] flush_Inr[OF fl] by (simp add: cf(4) misc)
  next
    case False
    then have "s' = ?c"
      using step by (simp add: encode_step_def Let_def)
    moreover have "inputBufferIndex ?c < capacity s"
      using False cf(1) by (simp add: capacity_def)
    ultimately show thesis using kept by simp
  qed
qed

lemma encode_step_Inr:
  assumes inv: "inputBufferIndex s \<le> capacity s"
    and step: "encode_step M samples i s = Inr s'"
  shows "capacity s' = capacity s"
    and "stream s' = stream s @ take (lengthToCopy s samples i) (drop i samples)"
    and "\<exists>new. calls s' = calls s @ new \<and> cycles new \<and> (\<forall>f\<in>set (frames new). length f = capacity s)"
    and "inputBufferIndex s' \<le> capacity s"
    and "0 < capacity s \<Longrightarrow> inputBufferIndex s' < capacity s"
    and "interleavedBuffers s' = interleavedBuffers s"
    and "channelCount s' = channelCount s"
proof -
  let ?c = "copy_samples s samples i"
  note cf = copy_samples_facts[OF inv, of samples i]
  have misc: "interleavedBuffers ?c = interleavedBuffers s" "channelCount ?c = channelCount s"
    by (simp_all add: copy_samples_def Let_def)
  have len: "length (mInputBuffer ?c) = capacity s"
    using cf(1) by (simp add: capacity_def)
  show "capacity s' = capacity s"
    using inv step by (cases rule: encode_step_Inr_cases) (simp_all add: capacity_def len)
  show "stream s' = stream s @ take (lengthToCopy s samples i) (drop i samples)"
    using inv step
  proof (cases rule: encode_step_Inr_cases)
    case (flushed p)
    have "staged ?c = mInputBuffer ?c"
      using flushed(1) len by (simp add: staged_def)
    then show ?thesis
      using cf(3) by (simp add: flushed(2) stream_def staged_def frames_append)
  next
    case kept
    then show ?thesis using cf(3,4) by (simp add: stream_def)
  qed
  show "\<exists>new. calls s' = calls s @ new \<and> cycles new \<and> (\<forall>f\<in>set (frames new). length f = capacity s)"
    using inv step by (cases rule: encode_step_Inr_cases) (simp_all add: len cf(4))
  show "inputBufferIndex s' \<le> capacity s"
    using inv step by (cases rule: encode_step_Inr_cases) simp_all
  show "0 < capacity s \<Longrightarrow> inputBufferIndex s' < capacity s"
    using inv step by (cases rule: encode_step_Inr_cases) simp_all
  show "interleavedBuffers s' = interleavedBuffers s"
    using inv step by (cases rule: encode_step_Inr_cases) (simp_all add: misc)
  show "channelCount s' = channelCount s"
    using inv step by (cases rule: encode_step_Inr_cases) (simp_all add: misc)
qed

lemma encode_step_Inl:
  assumes inv: "inputBufferIndex s \<le> capacity s"
    and step: "encode_step M samples i s = Inl (e, s')"
  shows "capacity s' = capacity s"
    and "inputBufferIndex s' = capacity s"
    and "interleavedBuffers s' = interleavedBuffers s"
    and "channelCount s' = channelCount s"
    and "e = ResamplingError \<or> e = OpusEncodingError"
proof -
  let ?c = "copy_samples s samples i"
  note cf = copy_samples_facts[OF inv, of samples i]
  have misc: "interleavedBuffers ?c = interleavedBuffers s" "channelCount ?c = channelCount s"
    by (simp_all add: copy_samples_def Let_def)
  have full: "length (mInputBuffer ?c) \<le> inputBufferIndex ?c" and fl: "flush M ?c = Inl (e, s')"
    using step by (auto simp: encode_step_def Let_def split: if_splits)
  have eq: "inputBufferIndex ?c = capacity s"
    using full cf(1,2) lengthToCopy_le(2)[OF inv, of samples i] by (simp add: capacity_def)
  note fi = flush_Inl[OF fl]
  show "capacity s' = capacity s" using fi(1) cf(1) by (simp add: capacity_def)
  show "inputBufferIndex s' = capacity s" using fi(2) eq by simp
  show "interleavedBuffers s' = interleavedBuffers s" using fi(3) misc by simp
  show "channelCount s' = channelCount s" using fi(4) misc by simp
  show "e = ResamplingError \<or> e = OpusEncodingError" by (rule fi(5))
qed

subsection \<open>The loop\<close>

text \<open>The loop is a partial function: what it returns is characterised by the induction rule of
  its definition, and that it returns is proved by induction on the number of samples left.\<close>

lemma fed_refl: "inputBufferIndex s \<le> capacity s \<Longrightarrow> fed s [] s"
  unfolding fed_def by (auto intro: exI[of _ "[]"])

lemma fed_trans:
  assumes "fed s xs s1" "fed s1 ys s2"
  shows "fed s (xs @ ys) s2"
proof -
  from assms(1) obtain n1 where n1: "calls s1 = calls s @ n1" "cycles n1"
    "list_all (\<lambda>f. length f = capacity s) (frames n1)"
    unfolding fed_def by blast
  from assms(2) obtain n2 where n2: "calls s2 = calls s1 @ n2" "cycles n2"
    "list_all (\<lambda>f. length f = capacity s1) (frames n2)"
    unfolding fed_def by blast
  have cap: "capacity s1 = capacity s" using assms(1) by (simp add: fed_def)
  have "calls s2 = calls s @ (n1 @ n2)" "cycles (n1 @ n2)"
    "list_all (\<lambda>f. length f = capacity s) (frames (n1 @ n2))"
    using n1 n2 cap by (simp_all add: cycles_append frames_append)
  then have ex: "\<exists>new. calls s2 = calls s @ new \<and> cycles new \<and>
            list_all (\<lambda>f. length f = capacity s) (frames new)" by blast
  show ?thesis
    unfolding fed_def using assms ex cap by (simp add: fed_def)
qed

lemma encode_step_fed:
  assumes inv: "inputBufferIndex s \<le> capacity s"
    and step: "encode_step M samples i s = Inr s'"
  shows "fed s (take (lengthToCopy s samples i) (drop i samples)) s'"
proof -
  note es = encode_step_Inr[OF inv step]
  have "inputBufferIndex s < capacity s \<longrightarrow> inputBufferIndex s' < capacity s"
    using es(5) by simp
  then show ?thesis
    unfolding fed_def using es(1,2,3,4,6,7) by (simp add: list_all_iff)
qed

lemma take_drop_step: "take n (drop i xs) @ drop (i + n) xs = drop i xs"
  by (metis add.commute append_take_drop_id drop_drop)

lemma encode_loop_post:
  assumes run: "encode_loop M samples i s = Some y"
    and inv: "inputBufferIndex s \<le> capacity s"
  shows "case y of Inr s' \<Rightarrow> fed s (drop i samples) s' | Inl (e, s') \<Rightarrow> aborted s e s'"
proof -
  have "inputBufferIndex s \<le> capacity s \<longrightarrow>
          (case y of Inr s' \<Rightarrow> fed s (drop i samples) s' | Inl (e, s') \<Rightarrow> aborted s e s')"
  proof (rule encode_loop.raw_induct[where P = "\<lambda>M samples i s y.
            inputBufferIndex s \<le> capacity s \<longrightarrow>
            (case y of Inr s' \<Rightarrow> fed s (drop i samples) s' | Inl (e, s') \<Rightarrow> aborted s e s')",
          OF _ run])
    fix loop :: "'a wasm_module \<Rightarrow> 'a list \<Rightarrow> nat \<Rightarrow> 'a worker \<Rightarrow> ((error \<times> 'a worker) + 'a worker) option"
    fix M samples i s y
    assume IH: "\<And>M samples i s y. loop M samples i s = Some y \<Longrightarrow>
            inputBufferIndex s \<le> capacity s \<longrightarrow>
            (case y of Inr s' \<Rightarrow> fed s (drop i samples) s' | Inl (e, s') \<Rightarrow> aborted s e s')"
    assume body: "(if i < length samples then
        (case encode_step M samples i s of
           Inl e \<Rightarrow> Some (Inl e)
         | Inr s' \<Rightarrow> loop M samples (i + lengthToCopy s samples i) s')
      else Some (Inr s)) = Some y"
    show "inputBufferIndex s \<le> capacity s \<longrightarrow>
            (case y of Inr s' \<Rightarrow> fed s (drop i samples) s' | Inl (e, s') \<Rightarrow> aborted s e s')"
    proof
      assume inv: "inputBufferIndex s \<le> capacity s"
      show "case y of Inr s' \<Rightarrow> fed s (drop i samples) s' | Inl (e, s') \<Rightarrow> aborted s e s'"
      proof (cases "i < length samples")
        case False
        then have "y = Inr s" using body by simp
        then show ?thesis using False fed_refl[OF inv] by simp
      next
        case True
        show ?thesis
        proof (cases "encode_step M samples i s")
          case (Inl es)
          obtain e s1 where es: "es = (e, s1)" by (cases es)
          have "y = Inl (e, s1)" using body True Inl es by simp
          then show ?thesis
            using encode_step_Inl[OF inv Inl[unfolded es]] by (simp add: aborted_def)
        next
          case (Inr s1)
          then have rec: "loop M samples (i + lengthToCopy s samples i) s1 = Some y"
            using body True by simp
          note st = encode_step_Inr[OF inv Inr]
          note f1 = encode_step_fed[OF inv Inr]
          have inv1: "inputBufferIndex s1 \<le> capacity s1" using st(1,4) by simp
          from IH[OF rec] inv1 have ih: "case y of
                Inr s' \<Rightarrow> fed s1 (drop (i + lengthToCopy s samples i) samples) s'
              | Inl (e, s') \<Rightarrow> aborted s1 e s'" by simp
          show ?thesis
          proof (cases y)
            case (Inl es')
            then show ?thesis using ih st(1,6,7) by (auto simp: aborted_def split: prod.splits)
          next
            case (Inr s')
            then have "fed s1 (drop (i + lengthToCopy s samples i) samples) s'" using ih by simp
            from fed_trans[OF f1 this] show ?thesis using Inr by (simp add: take_drop_step)
          qed
        qed
      qed
    qed
  qed
  then show ?thesis using inv by simp
qed

lemma encode_loop_terminates:
  assumes "0 < capacity s" and "inputBufferIndex s \<le> capacity s"
  shows "\<exists>y. encode_loop M samples i s = Some y"
  using assms
proof (induction "2 * (length samples - i) + (if capacity s \<le> inputBufferIndex s then 1 else 0)"
        arbitrary: i s rule: less_induct)
  case less
  note inv = less.prems(2)
  show ?case
  proof (cases "i < length samples")
    case False
    then show ?thesis by (subst encode_loop.simps) simp
  next
    case True
    show ?thesis
    proof (cases "encode_step M samples i s")
      case (Inl e)
      then show ?thesis using True by (subst encode_loop.simps) simp
    next
      case (Inr s1)
      let ?n = "lengthToCopy s samples i"
      note st = encode_step_Inr[OF inv Inr]
      have lt1: "inputBufferIndex s1 < capacity s1" using st(1,5) less.prems(1) by simp
      have pos: "inputBufferIndex s < capacity s \<Longrightarrow> 0 < ?n"
        using True by (simp add: lengthToCopy_def capacity_def)
      have "2 * (length samples - (i + ?n)) + (if capacity s1 \<le> inputBufferIndex s1 then 1 else 0)
            < 2 * (length samples - i) + (if capacity s \<le> inputBufferIndex s then 1 else 0)"
        using lt1 pos True by (cases "inputBufferIndex s < capacity s") auto
      from less.hyps[OF this] lt1 st(1) less.prems(1)
      obtain y where "encode_loop M samples (i + ?n) s1 = Some y" by auto
      then show ?thesis using True Inr by (subst encode_loop.simps) simp
    qed
  qed
qed

subsection \<open>The stores of interleave\<close>

text \<open>Entry \<open>k\<close> of the scratch buffer belongs to channel \<open>k mod chCount\<close> and holds its
  sample \<open>k div chCount\<close>, when the channel buffer has one.\<close>

lemma index_split:
  "ch < c \<Longrightarrow> (k = i * c + ch) \<longleftrightarrow> (k mod c = ch \<and> k div c = i)"
  for c :: nat
  by auto

lemma length_write_channel [simp]:
  "length (write_channel c ch i xs scratch) = length scratch"
  by (induction xs arbitrary: i scratch) simp_all

lemma length_write_channels [simp]:
  "length (write_channels c ch bs scratch) = length scratch"
  by (induction bs arbitrary: ch scratch) simp_all

lemma nth_write_channel:
  assumes "ch < c" "k < length scratch"
  shows "write_channel c ch i xs scratch ! k =
           (if k mod c = ch \<and> i \<le> k div c \<and> k div c < i + length xs
            then xs ! (k div c - i) else scratch ! k)"
  using assms(2)
proof (induction xs arbitrary: i scratch)
  case Nil
  then show ?case by auto
next
  case (Cons x xs)
  have upd: "(if i * c + ch < length scratch then scratch[i * c + ch := x] else scratch)
             = scratch[i * c + ch := x]"
    by (simp add: list_update_beyond)
  have k: "k < length (scratch[i * c + ch := x])" using Cons.prems by simp
  have here: "(i * c + ch = k) \<longleftrightarrow> (k mod c = ch \<and> k div c = i)"
    using index_split[OF assms(1), of k i] by auto
  show ?case
    unfolding write_channel.simps upd Cons.IH[OF k]
    using Cons.prems here
    by (auto simp: nth_list_update nth_Cons' Suc_diff_le)
qed

lemma nth_write_channels:
  assumes "k < length scratch" "ch0 + length bs \<le> c"
  shows "write_channels c ch0 bs scratch ! k =
           (if ch0 \<le> k mod c \<and> k mod c < ch0 + length bs \<and>
               k div c < length (bs ! (k mod c - ch0))
            then bs ! (k mod c - ch0) ! (k div c) else scratch ! k)"
  using assms
proof (induction bs arbitrary: ch0 scratch)
  case Nil
  then show ?case by auto
next
  case (Cons b bs)
  have ch: "ch0 < c" using Cons.prems(2) by simp
  have k: "k < length (write_channel c ch0 0 b scratch)" using Cons.prems(1) by simp
  have le: "Suc ch0 + length bs \<le> c" using Cons.prems(2) by simp
  show ?case
    unfolding write_channels.simps Cons.IH[OF k le] nth_write_channel[OF ch Cons.prems(1)]
    by (auto simp: nth_Cons' Suc_diff_le not_less_eq_eq)
qed

declare write_channel.simps [simp del] write_channels.simps [simp del]

subsection \<open>The constructor on concrete arguments\<close>

lemma replicate_four: "replicate 4 x = [x, x, x, x]"
  by (simp add: numeral_eq_Suc)

lemma mono200_constructed: "WebMOpusWorker M_ok 200 1 None = Inr mono200"
  by (simp add: WebMOpusWorker_def OpusInitCodec_def SpeexInitResampler_def M_ok_def mono200_def
      WasmFloat32Buffer_def OPUS_OK_def RESAMPLER_ERR_SUCCESS_def OPUS_FRAME_SIZE_def
      OPUS_OUTPUT_SAMPLE_RATE_def Let_def replicate_four)

lemma stereo48000_constructed: "WebMOpusWorker M_ok 48000 2 None = Inr stereo48000"
  by (simp add: WebMOpusWorker_def OpusInitCodec_def SpeexInitResampler_def M_ok_def stereo48000_def
      WasmFloat32Buffer_def OPUS_OK_def RESAMPLER_ERR_SUCCESS_def OPUS_FRAME_SIZE_def
      OPUS_OUTPUT_SAMPLE_RATE_def Let_def)

subsection \<open>Counting frames\<close>

lemma length_concat_uniform:
  "list_all (\<lambda>f. length f = c) fs \<Longrightarrow> length (concat fs) = c * length fs"
  by (induction fs) simp_all

lemma fed_added:
  assumes "fed s xs s'"
  shows "calls s' = calls s @ added s s'"
    and "cycles (added s s')"
    and "list_all (\<lambda>f. length f = capacity s) (frames (added s s'))"
    and "concat (frames (added s s')) @ staged s' = staged s @ xs"
proof -
  from assms obtain new where new: "calls s' = calls s @ new" "cycles new"
    "list_all (\<lambda>f. length f = capacity s) (frames new)"
    unfolding fed_def by blast
  have a: "added s s' = new" by (simp add: added_def new(1))
  show "calls s' = calls s @ added s s'" "cycles (added s s')"
    "list_all (\<lambda>f. length f = capacity s) (frames (added s s'))"
    using new a by simp_all
  have "stream s' = stream s @ xs" using assms by (simp add: fed_def)
  then show "concat (frames (added s s')) @ staged s' = staged s @ xs"
    by (simp add: stream_def new(1) a frames_append)
qed

lemma fed_count:
  assumes "fed s xs s'" and "inputBufferIndex s \<le> capacity s"
  shows "capacity s * length (frames (added s s')) + inputBufferIndex s'
           = inputBufferIndex s + length xs"
proof -
  note fa = fed_added[OF assms(1)]
  have le': "inputBufferIndex s' \<le> capacity s'" using assms(1) by (simp add: fed_def)
  have "length (concat (frames (added s s')) @ staged s') = length (staged s @ xs)"
    using fa(4) by simp
  then show ?thesis
    using length_concat_uniform[OF fa(3)] assms(2) le'
    by (simp add: staged_def capacity_def)
qed

lemma fed_div_mod:
  assumes "fed s xs s'" and "inputBufferIndex s < capacity s"
  shows "length (frames (added s s')) = (inputBufferIndex s + length xs) div capacity s"
    and "inputBufferIndex s' = (inputBufferIndex s + length xs) mod capacity s"
proof -
  have lt: "inputBufferIndex s' < capacity s" using assms by (simp add: fed_def)
  have eq: "capacity s * length (frames (added s s')) + inputBufferIndex s'
           = inputBufferIndex s + length xs"
    using fed_count[OF assms(1)] assms(2) by simp
  show "length (frames (added s s')) = (inputBufferIndex s + length xs) div capacity s"
    using lt eq by (metis div_mult_self2 div_less add.commute add_0 less_nat_zero_code mult.commute)
  show "inputBufferIndex s' = (inputBufferIndex s + length xs) mod capacity s"
    using lt eq by (metis mod_less mod_mult_self2 add.commute mult.commute)
qed

subsection \<open>A whole call of encode\<close>

lemma interleave_single:
  "length bs = 1 \<Longrightarrow> interleave s bs = Inr (Some (hd bs), s)"
  by (simp add: interleave_def)

lemma interleave_multi:
  "length bs \<noteq> 1 \<Longrightarrow> interleavedBuffers s = Some scratch \<Longrightarrow>
   interleave s bs = Inr (Some (write_channels (length bs) 0 bs scratch),
                          s\<lparr> interleavedBuffers := Some (write_channels (length bs) 0 bs scratch) \<rparr>)"
  by (simp add: interleave_def Let_def)

lemma interleave_keeps:
  assumes "interleave s bs = Inr (r, s1)"
  shows "calls s1 = calls s" "mInputBuffer s1 = mInputBuffer s"
    "inputBufferIndex s1 = inputBufferIndex s" "channelCount s1 = channelCount s"
    "ready s \<Longrightarrow> ready s1"
  using assms
  by (auto simp: interleave_def Let_def ready_def capacity_def split: if_splits option.splits)

lemma interleave_views:
  assumes "interleave s bs = Inr (r, s1)"
  shows "capacity s1 = capacity s" "stream s1 = stream s" "staged s1 = staged s"
  using interleave_keeps(1-3)[OF assms] by (simp_all add: capacity_def stream_def staged_def)

lemma encode_post:
  assumes il: "interleave s bs = Inr (Some samples, s1)"
    and inv: "inputBufferIndex s \<le> capacity s"
    and run: "encode M s bs final = Some y"
  shows "case y of Inr s' \<Rightarrow> fed s1 samples s' | Inl (e, s') \<Rightarrow> aborted s1 e s'"
proof -
  have "encode_loop M samples 0 s1 = Some y"
    using run il by (auto simp: encode_def split: option.splits if_splits)
  moreover have "inputBufferIndex s1 \<le> capacity s1"
    using inv interleave_keeps(3)[OF il] interleave_views(1)[OF il] by simp
  ultimately have "case y of Inr s' \<Rightarrow> fed s1 (drop 0 samples) s' | Inl (e, s') \<Rightarrow> aborted s1 e s'"
    by (rule encode_loop_post)
  then show ?thesis by (simp only: drop_0)
qed

lemma encode_terminates:
  assumes "0 < capacity s" and "inputBufferIndex s \<le> capacity s"
  shows "\<exists>y. encode M s bs final = Some y"
proof (cases "interleave s bs")
  case (Inl e)
  then show ?thesis by (simp add: encode_def)
next
  case (Inr p)
  obtain r s1 where p: "p = (r, s1)" by (cases p)
  show ?thesis
  proof (cases r)
    case None
    then show ?thesis using Inr p by (simp add: encode_def)
  next
    case (Some samples)
    have il: "interleave s bs = Inr (Some samples, s1)" using Inr p Some by simp
    have "0 < capacity s1" "inputBufferIndex s1 \<le> capacity s1"
      using assms interleave_keeps(3)[OF il] interleave_views(1)[OF il] by simp_all
    from encode_loop_terminates[OF this, of M samples 0]
    obtain y where "encode_loop M samples 0 s1 = Some y" by blast
    then show ?thesis using il by (simp add: encode_def)
  qed
qed

subsection \<open>Resources, and the state between two calls\<close>

lemma track_cycles: "cycles new \<Longrightarrow> foldl track L new = L"
  by (induction new arbitrary: L rule: cycles.induct) simp_all

lemma live_append_cycles: "cycles new \<Longrightarrow> live (tr @ new) = live tr"
  by (simp add: live_def track_cycles)

lemma released_append: "released (xs @ ys) = released xs @ released ys"
  by (induction xs rule: released.induct) simp_all

lemma constructor_Inr:
  assumes "WebMOpusWorker M rate ch bps = Inr s0"
  shows "inputBufferIndex s0 = 0"
    and "channelCount s0 = ch"
    and "interleavedBuffers s0 = (if ch \<noteq> 1 then Some (replicate (BUFFER_LENGTH * ch) 0) else None)"
    and "frames (calls s0) = []"
    and "live (calls s0) = {ContainerWriter, OpusEncoder, SpeexResampler, InputBuffer,
                            ResampledBuffer, OutputBuffer}"
    and "capacity s0 = nat \<lfloor>of_nat rate * of_nat OPUS_FRAME_SIZE / 1000 * (of_nat ch :: rat)\<rfloor>"
    and "opus_encoder_create M OPUS_OUTPUT_SAMPLE_RATE ch OPUS_APPLICATION = OPUS_OK"
    and "speex_resampler_init M ch rate OPUS_OUTPUT_SAMPLE_RATE SPEEX_RESAMPLE_QUALITY = RESAMPLER_ERR_SUCCESS"
  using assms
  by (auto simp: WebMOpusWorker_def OpusInitCodec_def SpeexInitResampler_def OpusSetOpusControl_def
      Let_def live_def capacity_def WasmFloat32Buffer_def
      split: if_splits option.splits sum.splits)

lemma constructor_ready:
  assumes "WebMOpusWorker M rate ch bps = Inr s0"
  shows "ready s0"
  using constructor_Inr(1-3)[OF assms] by (simp add: ready_def)

lemma ready_fed: "ready s \<Longrightarrow> fed s xs s' \<Longrightarrow> ready s'"
  by (auto simp: ready_def fed_def split: option.splits)

lemma ready_aborted: "ready s \<Longrightarrow> aborted s e s' \<Longrightarrow> ready s'"
  by (auto simp: ready_def aborted_def split: option.splits)

lemma encode_ready:
  assumes "ready s" and "encode M s bs final = Some y"
  shows "ready (state_of y)" and "capacity (state_of y) = capacity s"
    and "channelCount (state_of y) = channelCount s"
proof -
  have inv: "inputBufferIndex s \<le> capacity s" using assms(1) by (simp add: ready_def)
  have "ready (state_of y) \<and> capacity (state_of y) = capacity s \<and>
        channelCount (state_of y) = channelCount s"
  proof (cases "interleave s bs")
    case (Inl e)
    then have "y = Inl (e, s)" using assms(2) by (simp add: encode_def)
    then show ?thesis using assms(1) by simp
  next
    case (Inr p)
    obtain r s1 where p: "p = (r, s1)" by (cases p)
    note il = Inr[unfolded p]
    note k = interleave_keeps[OF il] interleave_views[OF il]
    show ?thesis
    proof (cases r)
      case None
      then have "y = Inl (TypeError, s1)" using assms(2) il by (simp add: encode_def)
      then show ?thesis using k assms(1) by simp
    next
      case (Some samples)
      note post = encode_post[OF il[unfolded Some] inv assms(2)]
      show ?thesis
      proof (cases y)
        case (Inl es)
        obtain e s' where es: "es = (e, s')" by (cases es)
        have ab: "aborted s1 e s'" using post Inl es by simp
        then show ?thesis
          using ready_aborted[OF k(5)[OF assms(1)] ab] k Inl es by (simp add: aborted_def)
      next
        case (Inr s')
        then have f: "fed s1 samples s'" using post by simp
        then show ?thesis
          using ready_fed[OF k(5)[OF assms(1)] f] k Inr by (simp add: fed_def)
      qed
    qed
  qed
  then show "ready (state_of y)" and "capacity (state_of y) = capacity s"
    and "channelCount (state_of y) = channelCount s" by simp_all
qed

lemma feed_all_ready:
  assumes "ready s" and "feed_all M s inputs = Some y"
  shows "ready (state_of y) \<and> capacity (state_of y) = capacity s \<and>
         channelCount (state_of y) = channelCount s"
  using assms
proof (induction inputs arbitrary: s)
  case Nil
  then show ?case by auto
next
  case (Cons a inputs)
  obtain bs final where a: "a = (bs, final)" by (cases a)
  from Cons.prems(2) obtain r where r: "encode M s bs final = Some r"
    by (auto simp: a split: option.splits)
  note er = encode_ready[OF Cons.prems(1) r]
  show ?case
  proof (cases r)
    case (Inl es)
    then have "y = Inl es" using Cons.prems(2) r by (simp add: a)
    then show ?thesis using er Inl by simp
  next
    case (Inr s1)
    then have "feed_all M s1 inputs = Some y" using Cons.prems(2) r by (simp add: a)
    from Cons.IH[OF _ this] er Inr show ?thesis by simp
  qed
qed

lemma flush_succeeds:
  assumes "\<And>tr f. speex_resampler_process_interleaved_float M tr f = RESAMPLER_ERR_SUCCESS"
    and "\<And>tr. 0 \<le> opus_encode_float M tr"
  shows "flush M s \<noteq> Inl es"
  using assms by (auto simp: flush_def Let_def not_less[symmetric])

subsection \<open>Evaluation on the one-channel worker\<close>

lemmas eval_defs = encode_def interleave_def encode_loop.simps encode_step_def copy_samples_def
      lengthToCopy_def buffer_set_def flush_def Let_def
      RESAMPLER_ERR_SUCCESS_def OPUS_OUTPUT_MAX_LENGTH_def

lemma mono200_feed_six: "encode M_ok mono200 [[1, 2, 3, 4, 5, 6]] False = Some (Inr mono200_fed)"
  by (simp add: eval_defs M_ok_def mono200_def mono200_fed_def)

subsection \<open>The trace of a sequence of calls\<close>

lemma released_cycles: "cycles new \<Longrightarrow> released new = []"
  by (induction new rule: cycles.induct) simp_all

lemma constructor_released:
  assumes "WebMOpusWorker M rate ch bps = Inr s0"
  shows "released (calls s0) = []"
  using assms
  by (auto simp: WebMOpusWorker_def OpusInitCodec_def SpeexInitResampler_def OpusSetOpusControl_def
      Let_def split: if_splits option.splits sum.splits)

lemma encode_Inr_calls:
  assumes "inputBufferIndex s \<le> capacity s" and "encode M s bs final = Some (Inr s')"
  shows "\<exists>new. calls s' = calls s @ new \<and> cycles new"
proof -
  from assms(2) obtain samples s1 where il: "interleave s bs = Inr (Some samples, s1)"
    by (auto simp: encode_def split: sum.splits option.splits prod.splits)
  from encode_post[OF il assms] have "fed s1 samples s'" by simp
  then show ?thesis using interleave_keeps(1)[OF il] by (auto simp: fed_def)
qed

lemma feed_all_calls:
  assumes "ready s" and "feed_all M s inputs = Some (Inr s')"
  shows "\<exists>new. calls s' = calls s @ new \<and> cycles new"
  using assms
proof (induction inputs arbitrary: s)
  case Nil
  then show ?case by (auto intro: exI[of _ "[]"])
next
  case (Cons a inputs)
  obtain bs final where a: "a = (bs, final)" by (cases a)
  from Cons.prems(2) obtain s1 where r: "encode M s bs final = Some (Inr s1)"
    and rest: "feed_all M s1 inputs = Some (Inr s')"
    by (auto simp: a split: option.splits sum.splits)
  have inv: "inputBufferIndex s \<le> capacity s" using Cons.prems(1) by (simp add: ready_def)
  from encode_Inr_calls[OF inv r] obtain n1 where n1: "calls s1 = calls s @ n1" "cycles n1"
    by blast
  have "ready s1" using encode_ready(1)[OF Cons.prems(1) r] by simp
  from Cons.IH[OF this rest] obtain n2 where n2: "calls s' = calls s1 @ n2" "cycles n2"
    by blast
  have "calls s' = calls s @ (n1 @ n2)" "cycles (n1 @ n2)"
    using n1 n2 by (simp_all add: cycles_append)
  then show ?case by blast
qed

subsection \<open>When the loop flushes, throws, or runs for ever\<close>

lemma encode_step_calls:
  assumes inv: "inputBufferIndex s \<le> capacity s"
  shows "calls (state_of (encode_step M samples i s)) \<noteq> calls s \<longleftrightarrow>
           inputBufferIndex s + lengthToCopy s samples i = capacity s"
proof -
  let ?c = "copy_samples s samples i"
  note cf = copy_samples_facts[OF inv, of samples i]
  have le: "inputBufferIndex ?c \<le> capacity s"
    using cf(2) lengthToCopy_le(2)[OF inv, of samples i] by simp
  have len: "length (mInputBuffer ?c) = capacity s" using cf(1) by (simp add: capacity_def)
  show ?thesis
  proof (cases "inputBufferIndex s + lengthToCopy s samples i = capacity s")
    case True
    then have "encode_step M samples i s = flush M ?c"
      using cf(2) len by (simp add: encode_step_def Let_def)
    moreover have "calls (state_of (flush M ?c)) \<noteq> calls ?c"
      by (simp add: flush_def Let_def)
    ultimately show ?thesis using True cf(4) by simp
  next
    case False
    then have "encode_step M samples i s = Inr ?c"
      using cf(2) len le by (simp add: encode_step_def Let_def)
    then show ?thesis using False cf(4) by simp
  qed
qed

lemma encode_loop_no_throw:
  assumes run: "encode_loop M samples i s = Some y"
    and ok: "\<And>c es. flush M c \<noteq> Inl es"
  shows "\<exists>s'. y = Inr s'"
proof -
  have "(\<forall>c es. flush M c \<noteq> Inl es) \<longrightarrow> (\<exists>s'. y = Inr s')"
  proof (rule encode_loop.raw_induct[where P = "\<lambda>M samples i s y.
            (\<forall>c es. flush M c \<noteq> Inl es) \<longrightarrow> (\<exists>s'. y = Inr s')", OF _ run])
    fix loop :: "'a wasm_module \<Rightarrow> 'a list \<Rightarrow> nat \<Rightarrow> 'a worker \<Rightarrow> ((error \<times> 'a worker) + 'a worker) option"
    fix M samples i s y
    assume IH: "\<And>M samples i s y. loop M samples i s = Some y \<Longrightarrow>
                  (\<forall>c es. flush M c \<noteq> Inl es) \<longrightarrow> (\<exists>s'. y = Inr s')"
    assume body: "(if i < length samples then
          (case encode_step M samples i s of
             Inl e \<Rightarrow> Some (Inl e)
           | Inr s' \<Rightarrow> loop M samples (i + lengthToCopy s samples i) s')
        else Some (Inr s)) = Some y"
    show "(\<forall>c es. flush M c \<noteq> Inl es) \<longrightarrow> (\<exists>s'. y = Inr s')"
    proof
      assume ok: "\<forall>c es. flush M c \<noteq> Inl es"
      have nothrow: "encode_step M samples i s \<noteq> Inl es" for es
        using ok by (cases es) (auto simp: encode_step_def Let_def)
      show "\<exists>s'. y = Inr s'"
      proof (cases "i < length samples")
        case False
        then show ?thesis using body by auto
      next
        case True
        obtain s1 where "encode_step M samples i s = Inr s1"
          using nothrow by (cases "encode_step M samples i s") auto
        then have "loop M samples (i + lengthToCopy s samples i) s1 = Some y"
          using body True by simp
        from IH[OF this] ok show ?thesis by simp
      qed
    qed
  qed
  then show ?thesis using ok by simp
qed

lemma encode_loop_capacity_zero:
  assumes "capacity s = 0" and "inputBufferIndex s = 0" and "i < length samples"
    and ok: "\<And>c es. flush M c \<noteq> Inl es"
  shows "encode_loop M samples i s = None"
proof (rule ccontr)
  assume "encode_loop M samples i s \<noteq> None"
  then obtain y where run: "encode_loop M samples i s = Some y" by blast
  have "capacity s = 0 \<and> inputBufferIndex s = 0 \<and> i < length samples \<and>
        (\<forall>c es. flush M c \<noteq> Inl es) \<longrightarrow> False"
  proof (rule encode_loop.raw_induct[where P = "\<lambda>M samples i s y.
            capacity s = 0 \<and> inputBufferIndex s = 0 \<and> i < length samples \<and>
            (\<forall>c es. flush M c \<noteq> Inl es) \<longrightarrow> False", OF _ run])
    fix loop :: "'a wasm_module \<Rightarrow> 'a list \<Rightarrow> nat \<Rightarrow> 'a worker \<Rightarrow> ((error \<times> 'a worker) + 'a worker) option"
    fix M samples i s y
    assume IH: "\<And>M samples i s y. loop M samples i s = Some y \<Longrightarrow>
            capacity s = 0 \<and> inputBufferIndex s = 0 \<and> i < length samples \<and>
            (\<forall>c es. flush M c \<noteq> Inl es) \<longrightarrow> False"
    assume body: "(if i < length samples then
          (case encode_step M samples i s of
             Inl e \<Rightarrow> Some (Inl e)
           | Inr s' \<Rightarrow> loop M samples (i + lengthToCopy s samples i) s')
        else Some (Inr s)) = Some y"
    show "capacity s = 0 \<and> inputBufferIndex s = 0 \<and> i < length samples \<and>
            (\<forall>c es. flush M c \<noteq> Inl es) \<longrightarrow> False"
    proof
      assume a: "capacity s = 0 \<and> inputBufferIndex s = 0 \<and> i < length samples \<and>
            (\<forall>c es. flush M c \<noteq> Inl es)"
      then have inv: "inputBufferIndex s \<le> capacity s" by simp
      have n: "lengthToCopy s samples i = 0" using a by (simp add: lengthToCopy_def capacity_def)
      have "encode_step M samples i s \<noteq> Inl es" for es
        using a by (cases es) (auto simp: encode_step_def Let_def)
      then obtain s1 where st: "encode_step M samples i s = Inr s1"
        by (cases "encode_step M samples i s") auto
      then have rec: "loop M samples i s1 = Some y" using body a n by simp
      have "capacity s1 = 0" "inputBufferIndex s1 = 0"
        using encode_step_Inr(1,4)[OF inv st] a by simp_all
      with IH[OF rec] a show False by simp
    qed
  qed
  then show False using assms by simp
qed

subsection \<open>The two-channel worker\<close>

lemma M_ok_flush: "flush M_ok c \<noteq> Inl es"
  by (rule flush_succeeds) (simp_all add: M_ok_def RESAMPLER_ERR_SUCCESS_def)

lemma stereo48000_views:
  "capacity stereo48000 = 1920" "inputBufferIndex stereo48000 = 0"
  "interleavedBuffers stereo48000 = Some (replicate (BUFFER_LENGTH * 2) 0)"
  "calls stereo48000 = [Acquire ContainerWriter, Acquire OpusEncoder, Acquire SpeexResampler,
                Acquire InputBuffer, Acquire ResampledBuffer, Acquire OutputBuffer]"
  by (simp_all add: stereo48000_def capacity_def)

lemma stereo48000_interleave:
  "interleave stereo48000 [[1, 2, 3], [4, 5, 6]] =
     Inr (Some (write_channels 2 0 [[1, 2, 3], [4, 5, 6]] (replicate (BUFFER_LENGTH * 2) 0)),
          stereo48000\<lparr> interleavedBuffers :=
            Some (write_channels 2 0 [[1, 2, 3], [4, 5, 6]] (replicate (BUFFER_LENGTH * 2) 0)) \<rparr>)"
proof -
  have l: "length [[1, 2, 3], [4, 5, 6 :: int]] = 2" by simp
  have "length [[1, 2, 3], [4, 5, 6 :: int]] \<noteq> 1" by simp
  from interleave_multi[OF this stereo48000_views(3)] show ?thesis unfolding l .
qed

lemma stereo48000_feed:
  "\<exists>s'. encode M_ok stereo48000 [[1, 2, 3], [4, 5, 6]] False = Some (Inr s') \<and>
        fed (stereo48000\<lparr> interleavedBuffers :=
               Some (write_channels 2 0 [[1, 2, 3], [4, 5, 6]] (replicate (BUFFER_LENGTH * 2) 0)) \<rparr>)
          (write_channels 2 0 [[1, 2, 3], [4, 5, 6]] (replicate (BUFFER_LENGTH * 2) 0)) s'"
proof -
  let ?bs = "[[1, 2, 3], [4, 5, 6 :: int]]"
  define out where "out = write_channels 2 0 ?bs (replicate (BUFFER_LENGTH * 2) 0)"
  define s1 where "s1 = stereo48000\<lparr> interleavedBuffers := Some out \<rparr>"
  have il: "interleave stereo48000 ?bs = Inr (Some out, s1)"
    unfolding out_def s1_def by (rule stereo48000_interleave)
  have inv: "inputBufferIndex stereo48000 \<le> capacity stereo48000"
    and pos: "0 < capacity stereo48000"
    by (simp_all add: stereo48000_views)
  from encode_terminates[OF pos inv, of M_ok ?bs False]
  obtain y where y: "encode M_ok stereo48000 ?bs False = Some y" by blast
  then have "encode_loop M_ok out 0 s1 = Some y"
    using il by (auto simp: encode_def split: option.splits)
  from encode_loop_no_throw[OF this M_ok_flush] obtain s' where s': "y = Inr s'" by blast
  from encode_post[OF il inv y] s' have f: "fed s1 out s'" by simp
  show ?thesis using y s' f unfolding s1_def out_def by blast
qed

lemma below_six: "k < 6 \<Longrightarrow> k = 0 \<or> k = 1 \<or> k = 2 \<or> k = 3 \<or> k = 4 \<or> k = (5::nat)"
  by arith

lemma stereo48000_scratch_written:
  "write_channels 2 0 [[1, 2, 3], [4, 5, 6 :: int]] (replicate (BUFFER_LENGTH * 2) 0)
     = [1, 4, 2, 5, 3, 6] @ replicate 8186 0"
  (is "?l = ?r")
proof (rule nth_equalityI)
  show "length ?l = length ?r" by (simp add: BUFFER_LENGTH_def)
next
  fix k assume "k < length ?l"
  then have k: "k < length (replicate (BUFFER_LENGTH * 2) (0::int))"
    and k': "k < 8192" by (simp_all add: BUFFER_LENGTH_def)
  have w: "?l ! k =
      (if 0 \<le> k mod 2 \<and> k mod 2 < 0 + length [[1, 2, 3], [4, 5, 6 :: int]] \<and>
          k div 2 < length ([[1, 2, 3], [4, 5, 6 :: int]] ! (k mod 2 - 0))
       then [[1, 2, 3], [4, 5, 6]] ! (k mod 2 - 0) ! (k div 2)
       else replicate (BUFFER_LENGTH * 2) 0 ! k)"
    by (rule nth_write_channels[OF k]) simp
  show "?l ! k = ?r ! k"
  proof (cases "k < 6")
    case True
    from below_six[OF this] show ?thesis
      unfolding w by (elim disjE) (simp_all add: BUFFER_LENGTH_def)
  next
    case False
    then have d: "\<not> k div 2 < 3" by simp
    have m: "k mod 2 = 0 \<or> k mod 2 = 1" by auto
    have "?l ! k = 0"
      unfolding w using m d k' by (auto simp: BUFFER_LENGTH_def)
    moreover have "?r ! k = 0" using False k' by (simp add: nth_append)
    ultimately show ?thesis by simp
  qed
qed

subsection \<open>What interleave leaves in the scratch buffer\<close>

lemma nth_interleaved:
  assumes "k < length scratch" and "0 < length bs"
  shows "write_channels (length bs) 0 bs scratch ! k =
           (if k div length bs < length (bs ! (k mod length bs))
            then bs ! (k mod length bs) ! (k div length bs) else scratch ! k)"
  using nth_write_channels[OF assms(1), of 0 bs "length bs"] assms(2) by simp

lemma interleaved_sample:
  assumes "c < length bs" and "i < length (bs ! c)" and "i * length bs + c < length scratch"
  shows "write_channels (length bs) 0 bs scratch ! (i * length bs + c) = bs ! c ! i"
proof -
  have pos: "0 < length bs" using assms(1) by (rule le_less_trans[OF le0])
  have "(i * length bs + c) mod length bs = c" "(i * length bs + c) div length bs = i"
    using index_split[OF assms(1), of "i * length bs + c" i] by simp_all
  then show ?thesis using nth_interleaved[OF assms(3) pos] assms(2) by simp
qed

lemma interleaved_stale:
  assumes "k < length scratch" and "0 < length bs" and "\<forall>b\<in>set bs. length b = L"
    and "L * length bs \<le> k"
  shows "write_channels (length bs) 0 bs scratch ! k = scratch ! k"
proof -
  have "k mod length bs < length bs" using assms(2) by simp
  then have "length (bs ! (k mod length bs)) = L" using assms(3) by simp
  moreover have "L \<le> k div length bs"
    using assms(2,4) by (simp add: less_eq_div_iff_mult_less_eq)
  ultimately show ?thesis using nth_interleaved[OF assms(1,2)] by simp
qed

lemma interleaved_truncated:
  assumes "length scratch = B * length bs"
  shows "write_channels (length bs) 0 (map (take B) bs) scratch
           = write_channels (length bs) 0 bs scratch"
proof (cases "length bs = 0")
  case True
  then show ?thesis by simp
next
  case False
  then have pos: "0 < length bs" by simp
  show ?thesis
  proof (rule nth_equalityI)
    show "length (write_channels (length bs) 0 (map (take B) bs) scratch)
            = length (write_channels (length bs) 0 bs scratch)" by simp
  next
    fix k assume "k < length (write_channels (length bs) 0 (map (take B) bs) scratch)"
    then have k: "k < length scratch" by simp
    have m: "k mod length bs < length bs" using pos by simp
    have d: "k div length bs < B"
      using k assms pos by (simp add: less_mult_imp_div_less)
    have l: "write_channels (length bs) 0 (map (take B) bs) scratch ! k =
           (if k div length bs < length (map (take B) bs ! (k mod length bs))
            then map (take B) bs ! (k mod length bs) ! (k div length bs) else scratch ! k)"
      using nth_interleaved[OF k, of "map (take B) bs"] pos by simp
    show "write_channels (length bs) 0 (map (take B) bs) scratch ! k
            = write_channels (length bs) 0 bs scratch ! k"
      unfolding l nth_interleaved[OF k pos] using m d by simp
  qed
qed

section \<open>The claims\<close>

subsection \<open>C1: conservation of samples\<close>

text \<open>
  Claim C1 at an input on which the code departs from it. The worker for two channels at
  48000 Hz has a staging buffer of 1920 samples. Fed two channel buffers of three samples
  each, six interleaved samples, and with every library call succeeding, \<^verbatim>\<open>encode\<close>
  returns after four flushes with the cursor at 512 and 8192 samples in the stream: it has
  taken the whole scratch buffer, not the six samples. The claim gives no flush and a
  cursor of 6. (For one channel the count of the claim holds; see C5 and C9.)
\<close>

theorem C1_stereo_feed:
  "\<exists>s'. encode M_ok stereo48000 [[1, 2, 3], [4, 5, 6]] False = Some (Inr s') \<and>
        length (frames (added stereo48000 s')) = 4 \<and>
        inputBufferIndex s' = 512 \<and>
        capacity s' = 1920 \<and>
        length (stream s') = 8192"
proof -
  define out where "out = write_channels 2 0 [[1, 2, 3], [4, 5, 6 :: int]] (replicate (BUFFER_LENGTH * 2) 0)"
  define s1 where "s1 = stereo48000\<lparr> interleavedBuffers := Some out \<rparr>"
  from stereo48000_feed obtain s' where
    y: "encode M_ok stereo48000 [[1, 2, 3], [4, 5, 6]] False = Some (Inr s')" and f: "fed s1 out s'"
    unfolding s1_def out_def by blast
  have v1: "capacity s1 = 1920" "inputBufferIndex s1 = 0"
    by (simp_all add: s1_def stereo48000_def capacity_def)
  have lt: "inputBufferIndex s1 < capacity s1" using v1 by simp
  have len: "length out = 8192"
    unfolding out_def length_write_channels by (simp add: BUFFER_LENGTH_def)
  have a: "added s1 s' = added stereo48000 s'" by (simp add: added_def s1_def)
  have st: "stream s1 = []" by (simp add: stream_def staged_def s1_def stereo48000_def)
  have "length (frames (added stereo48000 s')) = 4" "inputBufferIndex s' = 512"
    using fed_div_mod[OF f lt] by (simp_all add: v1 len a)
  moreover have "capacity s' = 1920" using f v1 by (simp add: fed_def)
  moreover have "length (stream s') = 8192" using f st len by (simp add: fed_def)
  ultimately show ?thesis using y by blast
qed

subsection \<open>C2: the scratch buffer of a worker for several channels\<close>

text \<open>
  Claim C2. Take a worker constructed for more than one channel, after any number of
  \<^verbatim>\<open>encode\<close> calls that returned, and as many channel buffers as it has channels, all of
  length \<open>L\<close>. Its scratch buffer has \<^verbatim>\<open>BUFFER_LENGTH\<close> samples for every channel.
  \<^verbatim>\<open>interleave\<close> returns the whole scratch buffer, which it has written in place: entry
  \<open>i * ch + c\<close> is sample \<open>i\<close> of channel \<open>c\<close> for \<open>i\<close> below both \<open>L\<close> and
  \<^verbatim>\<open>BUFFER_LENGTH\<close>, and every entry from \<open>L * ch\<close> on is what the scratch buffer held
  before. Samples at index \<^verbatim>\<open>BUFFER_LENGTH\<close> or beyond fall outside the scratch buffer and are
  lost: cutting every channel buffer to its first \<^verbatim>\<open>BUFFER_LENGTH\<close> samples changes nothing.
  An \<^verbatim>\<open>encode\<close> call that returns has appended exactly this buffer,
  \<^verbatim>\<open>BUFFER_LENGTH\<close> times the number of channels samples whatever \<open>L\<close> is, to the stream.
  With a staging buffer of positive capacity the call ends.
\<close>

theorem C2_multichannel_feed_takes_whole_scratch:
  assumes "WebMOpusWorker M rate ch bps = Inr s0"
    and "1 < ch"
    and "feed_all M s0 inputs = Some (Inr s)"
    and "length buffers = ch"
    and "\<forall>b\<in>set buffers. length b = L"
  shows "\<exists>scratch out.
           interleavedBuffers s = Some scratch \<and>
           length scratch = BUFFER_LENGTH * ch \<and>
           interleave s buffers = Inr (Some out, s\<lparr> interleavedBuffers := Some out \<rparr>) \<and>
           length out = BUFFER_LENGTH * ch \<and>
           (\<forall>i c. i < min L BUFFER_LENGTH \<and> c < ch \<longrightarrow> out ! (i * ch + c) = buffers ! c ! i) \<and>
           (\<forall>k. L * ch \<le> k \<and> k < BUFFER_LENGTH * ch \<longrightarrow> out ! k = scratch ! k) \<and>
           interleave s (map (take BUFFER_LENGTH) buffers) = interleave s buffers \<and>
           (\<forall>s'. encode M s buffers final = Some (Inr s') \<longrightarrow>
              stream s' = stream s @ out \<and>
              length (stream s') = length (stream s) + BUFFER_LENGTH * ch) \<and>
           (0 < capacity s \<longrightarrow> (\<exists>y. encode M s buffers final = Some y))"
proof -
  from feed_all_ready[OF constructor_ready[OF assms(1)] assms(3)] constructor_Inr(2)[OF assms(1)]
  have rdy: "ready s" and chs: "channelCount s = ch" by simp_all
  have inv: "inputBufferIndex s \<le> capacity s" using rdy by (simp add: ready_def)
  from rdy chs assms(2) obtain scratch where
    sc: "interleavedBuffers s = Some scratch" and len: "length scratch = BUFFER_LENGTH * ch"
    by (auto simp: ready_def split: option.splits)
  define out where "out = write_channels (length buffers) 0 buffers scratch"
  have ne: "length buffers \<noteq> 1" and pos: "0 < length buffers" using assms(2,4) by simp_all
  have il: "interleave s buffers = Inr (Some out, s\<lparr> interleavedBuffers := Some out \<rparr>)"
    unfolding out_def by (rule interleave_multi[OF ne sc])
  have lo: "length out = BUFFER_LENGTH * ch" by (simp add: out_def len)
  have smp: "\<forall>i c. i < min L BUFFER_LENGTH \<and> c < ch \<longrightarrow> out ! (i * ch + c) = buffers ! c ! i"
  proof (intro allI impI)
    fix i c assume that: "i < min L BUFFER_LENGTH \<and> c < ch"
    have c: "c < length buffers" using that assms(4) by simp
    then have "buffers ! c \<in> set buffers" by simp
    then have i: "i < length (buffers ! c)" using that assms(5) by simp
    have "i * ch + c < Suc i * ch" using that by simp
    also have "\<dots> \<le> BUFFER_LENGTH * ch" using that by (intro mult_le_mono1) simp
    finally have "i * length buffers + c < length scratch" using len assms(4) by simp
    from interleaved_sample[OF c i this] show "out ! (i * ch + c) = buffers ! c ! i"
      by (simp add: out_def assms(4))
  qed
  have stale: "\<forall>k. L * ch \<le> k \<and> k < BUFFER_LENGTH * ch \<longrightarrow> out ! k = scratch ! k"
  proof (intro allI impI)
    fix k assume that: "L * ch \<le> k \<and> k < BUFFER_LENGTH * ch"
    show "out ! k = scratch ! k"
      unfolding out_def
      by (rule interleaved_stale[OF _ pos assms(5)]) (use that len assms(4) in simp_all)
  qed
  have tr: "interleave s (map (take BUFFER_LENGTH) buffers) = interleave s buffers"
  proof -
    have "length (map (take BUFFER_LENGTH) buffers) \<noteq> 1" using ne by simp
    from interleave_multi[OF this sc] show ?thesis
      using interleaved_truncated[of scratch BUFFER_LENGTH buffers] len assms(4)
      by (simp add: il out_def)
  qed
  have enc: "\<forall>s'. encode M s buffers final = Some (Inr s') \<longrightarrow>
              stream s' = stream s @ out \<and>
              length (stream s') = length (stream s) + BUFFER_LENGTH * ch"
  proof (intro allI impI)
    fix s' assume that: "encode M s buffers final = Some (Inr s')"
    from encode_post[OF il inv that] have "fed (s\<lparr> interleavedBuffers := Some out \<rparr>) out s'"
      by simp
    then have "stream s' = stream (s\<lparr> interleavedBuffers := Some out \<rparr>) @ out"
      by (simp add: fed_def)
    then have "stream s' = stream s @ out" using interleave_views(2)[OF il] by simp
    then show "stream s' = stream s @ out \<and>
              length (stream s') = length (stream s) + BUFFER_LENGTH * ch" using lo by simp
  qed
  have tm: "0 < capacity s \<longrightarrow> (\<exists>y. encode M s buffers final = Some y)"
    using encode_terminates[OF _ inv] by blast
  show ?thesis
    by (intro exI[of _ scratch] exI[of _ out] conjI) (rule sc len il lo smp stale tr enc tm)+
qed

text \<open>
  The two-channel worker, fed two channel buffers of three samples.
\<close>

theorem C2_multichannel_feed_takes_whole_scratch_witness:
  "WebMOpusWorker M_ok 48000 2 None = Inr stereo48000 \<and>
   (1::nat) < 2 \<and>
   feed_all M_ok stereo48000 [] = Some (Inr stereo48000) \<and>
   length [[1, 2, 3], [4, 5, 6 :: int]] = 2 \<and>
   length [1, 2, 3 :: int] = 3 \<and> length [4, 5, 6 :: int] = 3 \<and>
   (\<exists>out. interleave stereo48000 [[1, 2, 3], [4, 5, 6]] =
            Inr (Some out, stereo48000\<lparr> interleavedBuffers := Some out \<rparr>) \<and>
          length out = BUFFER_LENGTH * 2 \<and>
          (\<exists>s'. encode M_ok stereo48000 [[1, 2, 3], [4, 5, 6]] False = Some (Inr s') \<and>
                stream s' = stream stereo48000 @ out))"
proof -
  have a: "WebMOpusWorker M_ok 48000 2 None = Inr stereo48000" by (rule stereo48000_constructed)
  have b: "(1::nat) < 2" by simp
  have c: "feed_all M_ok stereo48000 [] = Some (Inr stereo48000)" by simp
  have d: "length [[1, 2, 3], [4, 5, 6 :: int]] = 2" by simp
  have e: "\<forall>b\<in>set [[1, 2, 3], [4, 5, 6 :: int]]. length b = 3" by simp
  from stereo48000_feed obtain s' where
    f: "encode M_ok stereo48000 [[1, 2, 3], [4, 5, 6]] False = Some (Inr s')" by blast
  from C2_multichannel_feed_takes_whole_scratch [OF a b c d e, of False] f
  have "\<exists>out. interleave stereo48000 [[1, 2, 3], [4, 5, 6]] =
            Inr (Some out, stereo48000\<lparr> interleavedBuffers := Some out \<rparr>) \<and>
          length out = BUFFER_LENGTH * 2 \<and>
          (\<exists>s'. encode M_ok stereo48000 [[1, 2, 3], [4, 5, 6]] False = Some (Inr s') \<and>
                stream s' = stream stereo48000 @ out)"
    by blast
  moreover have "length [1, 2, 3 :: int] = 3 \<and> length [4, 5, 6 :: int] = 3" by simp
  ultimately show ?thesis using a b c d by blast
qed

subsection \<open>C3: a failing acquisition in the constructor\<close>

text \<open>
  Claim C3 says that a failing acquisition makes the constructor release what it had
  acquired before the error propagates. At a module whose encoder cannot be created the
  constructor throws the encoder's initialisation error while the container writer is still
  held: the trace at the throw holds its acquisition and no release.
\<close>

theorem C3_counterexample:
  "WebMOpusWorker M_no_encoder 48000 2 None = Inl (OpusInitFailed, [Acquire ContainerWriter]) \<and>
   live [Acquire ContainerWriter :: int event] = {ContainerWriter} \<and>
   released [Acquire ContainerWriter :: int event] = []"
  by (simp add: WebMOpusWorker_def OpusInitCodec_def M_no_encoder_def M_ok_def OPUS_OK_def
      live_def Let_def)

text \<open>
  Claim C3, as amended. The container writer is created without a status. If
  \<^verbatim>\<open>_opus_encoder_create\<close> stores a status other than \<^verbatim>\<open>OPUS_OK\<close>, the constructor throws the
  encoder's initialisation error; the container writer is then still held, nothing has been
  released, and the resampler has not been acquired. If the encoder is created and
  \<^verbatim>\<open>_speex_resampler_init\<close> stores a status other than \<^verbatim>\<open>RESAMPLER_ERR_SUCCESS\<close>, the
  constructor throws the resampler's initialisation error; the container writer and the
  encoder are then still held and nothing has been released. If both report success the
  constructor returns a worker.
\<close>

theorem C3_constructor_failure:
  "(opus_encoder_create M OPUS_OUTPUT_SAMPLE_RATE ch OPUS_APPLICATION \<noteq> OPUS_OK \<longrightarrow>
      (\<exists>tr. WebMOpusWorker M rate ch bps = Inl (OpusInitFailed, tr) \<and>
            live tr = {ContainerWriter} \<and> released tr = [])) \<and>
   (opus_encoder_create M OPUS_OUTPUT_SAMPLE_RATE ch OPUS_APPLICATION = OPUS_OK \<and>
    speex_resampler_init M ch rate OPUS_OUTPUT_SAMPLE_RATE SPEEX_RESAMPLE_QUALITY
      \<noteq> RESAMPLER_ERR_SUCCESS \<longrightarrow>
      (\<exists>tr. WebMOpusWorker M rate ch bps = Inl (ResamplerInitFailed, tr) \<and>
            live tr = {ContainerWriter, OpusEncoder} \<and> released tr = [])) \<and>
   (opus_encoder_create M OPUS_OUTPUT_SAMPLE_RATE ch OPUS_APPLICATION = OPUS_OK \<and>
    speex_resampler_init M ch rate OPUS_OUTPUT_SAMPLE_RATE SPEEX_RESAMPLE_QUALITY
      = RESAMPLER_ERR_SUCCESS \<longrightarrow>
      (\<exists>s. WebMOpusWorker M rate ch bps = Inr s))"
  by (auto simp: WebMOpusWorker_def OpusInitCodec_def SpeexInitResampler_def OpusSetOpusControl_def
      Let_def live_def split: option.splits)

text \<open>
  The three cases at concrete modules: no encoder, no resampler, and success, for two
  channels at 48000 Hz.
\<close>

theorem C3_constructor_failure_witness:
  "opus_encoder_create M_no_encoder OPUS_OUTPUT_SAMPLE_RATE 2 OPUS_APPLICATION \<noteq> OPUS_OK \<and>
   (\<exists>tr. WebMOpusWorker M_no_encoder 48000 2 None = Inl (OpusInitFailed, tr) \<and>
         live tr = {ContainerWriter} \<and> released tr = []) \<and>
   opus_encoder_create M_no_resampler OPUS_OUTPUT_SAMPLE_RATE 2 OPUS_APPLICATION = OPUS_OK \<and>
   speex_resampler_init M_no_resampler 2 48000 OPUS_OUTPUT_SAMPLE_RATE SPEEX_RESAMPLE_QUALITY
     \<noteq> RESAMPLER_ERR_SUCCESS \<and>
   (\<exists>tr. WebMOpusWorker M_no_resampler 48000 2 None = Inl (ResamplerInitFailed, tr) \<and>
         live tr = {ContainerWriter, OpusEncoder} \<and> released tr = []) \<and>
   (\<exists>s. WebMOpusWorker M_ok 48000 2 None = Inr s)"
  using C3_constructor_failure [of M_no_encoder 2 48000 None]
    C3_constructor_failure [of M_no_resampler 2 48000 None]
    C3_constructor_failure [of M_ok 2 48000 None]
  by (simp add: M_no_encoder_def M_no_resampler_def M_ok_def OPUS_OK_def RESAMPLER_ERR_SUCCESS_def)

subsection \<open>C4: interleaving\<close>

text \<open>
  Claim C4 at the input of its own example, two channel buffers of three samples, on the
  freshly constructed worker for two channels. The stream \<^verbatim>\<open>interleave\<close> returns begins
  with the six interleaved samples, as the claim says, and goes on with 8186 more (zeros
  here, since the scratch buffer is fresh): it has 8192 samples, not six.
\<close>

theorem C4_stereo_interleave:
  "interleave stereo48000 [[1, 2, 3], [4, 5, 6]] =
     Inr (Some ([1, 4, 2, 5, 3, 6] @ replicate 8186 0),
          stereo48000\<lparr> interleavedBuffers := Some ([1, 4, 2, 5, 3, 6] @ replicate 8186 0) \<rparr>) \<and>
   length ([1, 4, 2, 5, 3, 6] @ replicate 8186 (0::int)) = 8192"
  using stereo48000_interleave unfolding stereo48000_scratch_written by simp

subsection \<open>C5: the flush cycle\<close>

text \<open>
  Claim C5 says that an input longer than the capacity triggers several cycles. The
  one-channel worker has a capacity of four samples; fed six samples with an empty staging
  buffer it runs exactly one cycle, on the first four, and stages the other two.
\<close>

theorem C5_counterexample:
  "capacity mono200 < length [1, 2, 3, 4, 5, 6 :: int] \<and>
   encode M_ok mono200 [[1, 2, 3, 4, 5, 6]] False = Some (Inr mono200_fed) \<and>
   added mono200 mono200_fed =
     [ResamplerProcess [1, 2, 3, 4] 4 960, OpusEncodeFloat 960 4000, WriteFrame 7 960] \<and>
   length (frames (added mono200 mono200_fed)) = 1 \<and>
   staged mono200_fed = [5, 6]"
  by (simp add: eval_defs M_ok_def mono200_def mono200_fed_def added_def capacity_def staged_def)

text \<open>
  Claim C5, as amended. Everything is counted on the stream \<open>samples\<close> that
  \<^verbatim>\<open>interleave\<close> hands to the loop, not on the channel buffers of the call; with a single
  channel buffer the stream is that buffer. Let the cursor be below the capacity. Then
  \<^verbatim>\<open>encode\<close> ends, and when it returns the events it has added to the trace are whole
  cycles, each a resample, then an encode, then a container write; their number is
  (cursor + length of \<open>samples\<close>) div capacity, so one when the stream exactly fills the
  staging buffer and several when cursor + length of \<open>samples\<close> reaches two capacities
  or more; every frame handed to the resampler is a full staging buffer; the frames in
  order, followed by what is staged afterwards, are what was staged before followed by
  \<open>samples\<close>; and the cursor is (cursor + length of \<open>samples\<close>) mod capacity. A flush
  that completes adds exactly one such cycle, on the staging buffer as it is, and sets the
  cursor to 0.
\<close>

theorem C5_flush_cycles:
  assumes "interleave s buffers = Inr (Some samples, s1)"
    and "inputBufferIndex s < capacity s"
  shows "(\<exists>y. encode M s buffers final = Some y) \<and>
         (length buffers = 1 \<longrightarrow> samples = hd buffers) \<and>
         (\<forall>s'. encode M s buffers final = Some (Inr s') \<longrightarrow>
            calls s' = calls s @ added s s' \<and>
            cycles (added s s') \<and>
            length (frames (added s s')) = (inputBufferIndex s + length samples) div capacity s \<and>
            list_all (\<lambda>f. length f = capacity s) (frames (added s s')) \<and>
            concat (frames (added s s')) @ staged s' = staged s @ samples \<and>
            inputBufferIndex s' = (inputBufferIndex s + length samples) mod capacity s) \<and>
         (\<forall>c c'. flush M c = Inr c' \<longrightarrow>
            added c c' =
              [ResamplerProcess (mInputBuffer c) (inputSamplesPerChannel c) (outputSamplePerChannel c),
               OpusEncodeFloat (outputSamplePerChannel c) OPUS_OUTPUT_MAX_LENGTH,
               WriteFrame (opus_encode_float M (calls c @
                   [ResamplerProcess (mInputBuffer c) (inputSamplesPerChannel c)
                      (outputSamplePerChannel c)]))
                 (outputSamplePerChannel c)] \<and>
            inputBufferIndex c' = 0)"
proof -
  note k = interleave_keeps(1-3)[OF assms(1)] interleave_views[OF assms(1)]
  have inv: "inputBufferIndex s \<le> capacity s" using assms(2) by simp
  have pos: "0 < capacity s" using assms(2) by simp
  have t: "\<exists>y. encode M s buffers final = Some y"
    by (rule encode_terminates[OF pos inv])
  have one: "length buffers = 1 \<longrightarrow> samples = hd buffers"
    using assms(1) by (auto simp: interleave_single)
  have p: "calls s' = calls s @ added s s' \<and>
            cycles (added s s') \<and>
            length (frames (added s s')) = (inputBufferIndex s + length samples) div capacity s \<and>
            list_all (\<lambda>f. length f = capacity s) (frames (added s s')) \<and>
            concat (frames (added s s')) @ staged s' = staged s @ samples \<and>
            inputBufferIndex s' = (inputBufferIndex s + length samples) mod capacity s"
    if run: "encode M s buffers final = Some (Inr s')" for s'
  proof -
    from encode_post[OF assms(1) inv run] have f: "fed s1 samples s'" by simp
    have lt1: "inputBufferIndex s1 < capacity s1" using assms(2) k by simp
    have a: "added s1 s' = added s s'" using k(1) by (simp add: added_def)
    show ?thesis
      using fed_added[OF f] fed_div_mod[OF f lt1] by (simp add: a k)
  qed
  have fl: "added c c' =
              [ResamplerProcess (mInputBuffer c) (inputSamplesPerChannel c) (outputSamplePerChannel c),
               OpusEncodeFloat (outputSamplePerChannel c) OPUS_OUTPUT_MAX_LENGTH,
               WriteFrame (opus_encode_float M (calls c @
                   [ResamplerProcess (mInputBuffer c) (inputSamplesPerChannel c)
                      (outputSamplePerChannel c)]))
                 (outputSamplePerChannel c)] \<and>
            inputBufferIndex c' = 0" if "flush M c = Inr c'" for c c'
    by (subst (1 2) flush_Inr[OF that]) (simp add: added_def)
  show ?thesis using t one p fl by blast
qed

text \<open>
  Nine samples fed to the one-channel worker with a frame of four samples: two cycles, one
  sample staged.
\<close>

theorem C5_flush_cycles_witness:
  "interleave mono200 [[1, 2, 3, 4, 5, 6, 7, 8, 9]] = Inr (Some [1, 2, 3, 4, 5, 6, 7, 8, 9], mono200) \<and>
   inputBufferIndex mono200 < capacity mono200 \<and>
   length [[1, 2, 3, 4, 5, 6, 7, 8, 9 :: int]] = 1 \<and>
   encode M_ok mono200 [[1, 2, 3, 4, 5, 6, 7, 8, 9]] False = Some (Inr mono200_fed9) \<and>
   capacity mono200 = 4 \<and>
   length (frames (added mono200 mono200_fed9)) = 2 \<and>
   cycles (added mono200 mono200_fed9) \<and>
   inputBufferIndex mono200_fed9 = 1"
proof -
  have a: "interleave mono200 [[1, 2, 3, 4, 5, 6, 7, 8, 9]] = Inr (Some [1, 2, 3, 4, 5, 6, 7, 8, 9], mono200)"
    by (simp add: interleave_def)
  have b: "inputBufferIndex mono200 < capacity mono200"
    by (simp add: mono200_def capacity_def)
  have c: "encode M_ok mono200 [[1, 2, 3, 4, 5, 6, 7, 8, 9]] False = Some (Inr mono200_fed9)"
    by (simp add: eval_defs M_ok_def mono200_def mono200_fed9_def)
  have e: "capacity mono200 = 4" "inputBufferIndex mono200 = 0"
    by (simp_all add: mono200_def capacity_def)
  from C5_flush_cycles [OF a b, of M_ok False] c
  have "length (frames (added mono200 mono200_fed9)) =
          (inputBufferIndex mono200 + length [1, 2, 3, 4, 5, 6, 7, 8, 9 :: int]) div capacity mono200"
    and "inputBufferIndex mono200_fed9 =
          (inputBufferIndex mono200 + length [1, 2, 3, 4, 5, 6, 7, 8, 9 :: int]) mod capacity mono200"
    and f: "cycles (added mono200 mono200_fed9)"
    by blast+
  then have d: "length (frames (added mono200 mono200_fed9)) = 2"
    "inputBufferIndex mono200_fed9 = 1"
    by (simp_all add: e)
  have g: "length [[1, 2, 3, 4, 5, 6, 7, 8, 9 :: int]] = 1" by simp
  show ?thesis using a b c d e(1) f g by blast
qed

subsection \<open>C6: the cursor of the staging buffer\<close>

text \<open>
  Claim C6. The constructor returns a worker whose cursor is 0, and after every sequence of
  \<^verbatim>\<open>encode\<close> calls on it, the last of which may have thrown, the cursor is at most the
  capacity and the capacity is what it was. Within a call, every iteration of the loop that
  starts with the cursor within the capacity ends so; it hands the staging buffer on (the
  trace grows) exactly when the copy has brought the cursor to the capacity, and when the
  iteration completes the cursor is 0 in that case and the cursor after the copy, below the
  capacity, otherwise.
\<close>

theorem C6_cursor_invariant:
  "(WebMOpusWorker M rate ch bps = Inr s0 \<longrightarrow>
      inputBufferIndex s0 = 0 \<and>
      (\<forall>inputs y. feed_all M s0 inputs = Some y \<longrightarrow>
          inputBufferIndex (state_of y) \<le> capacity (state_of y) \<and>
          capacity (state_of y) = capacity s0)) \<and>
   (inputBufferIndex s \<le> capacity s \<longrightarrow>
      inputBufferIndex (state_of (encode_step M samples i s)) \<le> capacity s \<and>
      capacity (state_of (encode_step M samples i s)) = capacity s \<and>
      (calls (state_of (encode_step M samples i s)) \<noteq> calls s \<longleftrightarrow>
         inputBufferIndex s + lengthToCopy s samples i = capacity s) \<and>
      (\<forall>s'. encode_step M samples i s = Inr s' \<longrightarrow>
         inputBufferIndex s' =
           (if inputBufferIndex s + lengthToCopy s samples i = capacity s then 0
            else inputBufferIndex s + lengthToCopy s samples i)))"
proof (intro conjI impI)
  assume c: "WebMOpusWorker M rate ch bps = Inr s0"
  show "inputBufferIndex s0 = 0" by (rule constructor_Inr(1)[OF c])
  show "\<forall>inputs y. feed_all M s0 inputs = Some y \<longrightarrow>
          inputBufferIndex (state_of y) \<le> capacity (state_of y) \<and>
          capacity (state_of y) = capacity s0"
  proof (intro allI impI)
    fix inputs y assume "feed_all M s0 inputs = Some y"
    from feed_all_ready[OF constructor_ready[OF c] this]
    show "inputBufferIndex (state_of y) \<le> capacity (state_of y) \<and>
          capacity (state_of y) = capacity s0"
      by (simp add: ready_def)
  qed
next
  assume inv: "inputBufferIndex s \<le> capacity s"
  show "calls (state_of (encode_step M samples i s)) \<noteq> calls s \<longleftrightarrow>
         inputBufferIndex s + lengthToCopy s samples i = capacity s"
    by (rule encode_step_calls[OF inv])
  have "inputBufferIndex (state_of (encode_step M samples i s)) \<le> capacity s \<and>
      capacity (state_of (encode_step M samples i s)) = capacity s"
  proof (cases "encode_step M samples i s")
    case (Inl es)
    obtain e s' where es: "es = (e, s')" by (cases es)
    show ?thesis using encode_step_Inl(1,2)[OF inv Inl[unfolded es]] Inl es by simp
  next
    case (Inr s')
    show ?thesis using encode_step_Inr(1,4)[OF inv Inr] Inr by simp
  qed
  then show "inputBufferIndex (state_of (encode_step M samples i s)) \<le> capacity s"
    and "capacity (state_of (encode_step M samples i s)) = capacity s"
    by simp_all
  show "\<forall>s'. encode_step M samples i s = Inr s' \<longrightarrow>
         inputBufferIndex s' =
           (if inputBufferIndex s + lengthToCopy s samples i = capacity s then 0
            else inputBufferIndex s + lengthToCopy s samples i)"
  proof (intro allI impI)
    fix s' assume step: "encode_step M samples i s = Inr s'"
    note cf = copy_samples_facts[OF inv, of samples i]
    from inv step show "inputBufferIndex s' =
           (if inputBufferIndex s + lengthToCopy s samples i = capacity s then 0
            else inputBufferIndex s + lengthToCopy s samples i)"
      by (cases rule: encode_step_Inr_cases) (simp_all add: cf(2))
  qed
qed

text \<open>
  The one-channel worker: constructed, fed six samples, and one more iteration, which fills
  the staging buffer.
\<close>

theorem C6_cursor_invariant_witness:
  "WebMOpusWorker M_ok 200 1 None = Inr mono200 \<and>
   feed_all M_ok mono200 [([[1, 2, 3, 4, 5, 6]], False)] = Some (Inr mono200_fed) \<and>
   inputBufferIndex mono200_fed \<le> capacity mono200_fed \<and>
   capacity mono200_fed = capacity mono200 \<and>
   inputBufferIndex mono200_fed \<le> capacity mono200_fed \<and>
   encode_step M_ok [7, 8, 9] 0 mono200_fed =
     Inr (mono200_fed\<lparr> inputBufferIndex := 0, mInputBuffer := [5, 6, 7, 8],
           calls := calls mono200_fed @
             [ResamplerProcess [5, 6, 7, 8] 4 960, OpusEncodeFloat 960 4000, WriteFrame 7 960] \<rparr>) \<and>
   inputBufferIndex mono200_fed + lengthToCopy mono200_fed [7, 8, 9] 0 = capacity mono200_fed"
proof -
  have a: "WebMOpusWorker M_ok 200 1 None = Inr mono200" by (rule mono200_constructed)
  have b: "feed_all M_ok mono200 [([[1, 2, 3, 4, 5, 6]], False)] = Some (Inr mono200_fed)"
    by (simp add: mono200_feed_six)
  have c: "inputBufferIndex mono200_fed \<le> capacity mono200_fed"
    by (simp add: mono200_fed_def mono200_def capacity_def)
  have d: "encode_step M_ok [7, 8, 9] 0 mono200_fed =
     Inr (mono200_fed\<lparr> inputBufferIndex := 0, mInputBuffer := [5, 6, 7, 8],
           calls := calls mono200_fed @
             [ResamplerProcess [5, 6, 7, 8] 4 960, OpusEncodeFloat 960 4000, WriteFrame 7 960] \<rparr>)"
    by (simp add: eval_defs M_ok_def mono200_def mono200_fed_def)
  note T = C6_cursor_invariant [of M_ok 200 1 None mono200 mono200_fed "[7, 8, 9]" 0]
  from T a b have e: "inputBufferIndex (state_of (Inr mono200_fed)) \<le> capacity (state_of (Inr mono200_fed)) \<and>
          capacity (state_of (Inr mono200_fed :: (error \<times> int worker) + int worker)) = capacity mono200"
    by blast
  from T c have f: "calls (state_of (encode_step M_ok [7, 8, 9] 0 mono200_fed)) \<noteq> calls mono200_fed \<longleftrightarrow>
         inputBufferIndex mono200_fed + lengthToCopy mono200_fed [7, 8, 9] 0 = capacity mono200_fed"
    by blast
  have g: "inputBufferIndex mono200_fed + lengthToCopy mono200_fed [7, 8, 9] 0 = capacity mono200_fed"
    using f unfolding d by simp
  show ?thesis using a b c d e g by simp
qed

subsection \<open>C7: when a call throws\<close>

text \<open>
  Claim C7. In the flush of \<^verbatim>\<open>encode\<close>, the resample stage throws the resampling error if
  and only if \<^verbatim>\<open>_speex_resampler_process_interleaved_float\<close> returns a status other than
  \<^verbatim>\<open>RESAMPLER_ERR_SUCCESS\<close>; the encode stage, which runs only after a successful resample
  stage, throws the encoding error if and only if \<^verbatim>\<open>_opus_encode_float\<close> returns a negative
  length; the flush completes if and only if neither happens; and the flush throws nothing
  else. A whole call of \<^verbatim>\<open>encode\<close>, on a worker between two calls and with one channel
  buffer for every channel, throws nothing but these two errors.
\<close>

theorem C7_flush_raises_iff:
  "((\<exists>s'. flush M s = Inl (ResamplingError, s')) \<longleftrightarrow>
      speex_resampler_process_interleaved_float M (calls s) (mInputBuffer s)
        \<noteq> RESAMPLER_ERR_SUCCESS) \<and>
   ((\<exists>s'. flush M s = Inl (OpusEncodingError, s')) \<longleftrightarrow>
      speex_resampler_process_interleaved_float M (calls s) (mInputBuffer s)
        = RESAMPLER_ERR_SUCCESS \<and>
      opus_encode_float M (calls s @ [ResamplerProcess (mInputBuffer s)
         (inputSamplesPerChannel s) (outputSamplePerChannel s)]) < 0) \<and>
   ((\<exists>s'. flush M s = Inr s') \<longleftrightarrow>
      speex_resampler_process_interleaved_float M (calls s) (mInputBuffer s)
        = RESAMPLER_ERR_SUCCESS \<and>
      0 \<le> opus_encode_float M (calls s @ [ResamplerProcess (mInputBuffer s)
         (inputSamplesPerChannel s) (outputSamplePerChannel s)])) \<and>
   (\<forall>e s'. flush M s = Inl (e, s') \<longrightarrow> e = ResamplingError \<or> e = OpusEncodingError) \<and>
   (ready w \<and> length buffers = channelCount w \<longrightarrow>
      (\<forall>e w'. encode M w buffers final = Some (Inl (e, w')) \<longrightarrow>
          e = ResamplingError \<or> e = OpusEncodingError))"
proof -
  have feed: "e = ResamplingError \<or> e = OpusEncodingError"
    if rdy: "ready w" and len: "length buffers = channelCount w"
      and run: "encode M w buffers final = Some (Inl (e, w'))" for e w'
  proof -
    have inv: "inputBufferIndex w \<le> capacity w" using rdy by (simp add: ready_def)
    have "\<exists>samples w1. interleave w buffers = Inr (Some samples, w1)"
    proof (cases "length buffers = 1")
      case True
      then show ?thesis by (simp add: interleave_single)
    next
      case False
      then obtain scratch where "interleavedBuffers w = Some scratch"
        using rdy len by (auto simp: ready_def split: option.splits)
      from interleave_multi[OF False this] show ?thesis by blast
    qed
    then obtain samples w1 where il: "interleave w buffers = Inr (Some samples, w1)" by blast
    from encode_post[OF il inv run] show ?thesis by (simp add: aborted_def)
  qed
  have fl: "((\<exists>s'. flush M s = Inl (ResamplingError, s')) \<longleftrightarrow>
      speex_resampler_process_interleaved_float M (calls s) (mInputBuffer s)
        \<noteq> RESAMPLER_ERR_SUCCESS) \<and>
   ((\<exists>s'. flush M s = Inl (OpusEncodingError, s')) \<longleftrightarrow>
      speex_resampler_process_interleaved_float M (calls s) (mInputBuffer s)
        = RESAMPLER_ERR_SUCCESS \<and>
      opus_encode_float M (calls s @ [ResamplerProcess (mInputBuffer s)
         (inputSamplesPerChannel s) (outputSamplePerChannel s)]) < 0) \<and>
   ((\<exists>s'. flush M s = Inr s') \<longleftrightarrow>
      speex_resampler_process_interleaved_float M (calls s) (mInputBuffer s)
        = RESAMPLER_ERR_SUCCESS \<and>
      0 \<le> opus_encode_float M (calls s @ [ResamplerProcess (mInputBuffer s)
         (inputSamplesPerChannel s) (outputSamplePerChannel s)])) \<and>
   (\<forall>e s'. flush M s = Inl (e, s') \<longrightarrow> e = ResamplingError \<or> e = OpusEncodingError)"
    by (auto simp: flush_def Let_def)
  show ?thesis using fl feed by blast
qed

text \<open>
  A resampler that reports failure, an encoder that returns a negative length, and a module
  that succeeds, on the freshly constructed one-channel worker; and a whole call with the
  failing resampler.
\<close>

theorem C7_flush_raises_iff_witness:
  "flush M_bad_resampler mono200 =
     Inl (ResamplingError, mono200\<lparr> calls := calls mono200 @ [ResamplerProcess [0, 0, 0, 0] 4 960] \<rparr>) \<and>
   speex_resampler_process_interleaved_float M_bad_resampler (calls mono200) (mInputBuffer mono200)
     \<noteq> RESAMPLER_ERR_SUCCESS \<and>
   (\<exists>s'. flush M_bad_encoder mono200 = Inl (OpusEncodingError, s')) \<and>
   (\<exists>s'. flush M_ok mono200 = Inr s') \<and>
   ready mono200 \<and> length [[1, 2, 3, 4 :: int]] = channelCount mono200 \<and>
   encode M_bad_resampler mono200 [[1, 2, 3, 4]] False =
     Some (Inl (ResamplingError, mono200\<lparr> inputBufferIndex := 4, mInputBuffer := [1, 2, 3, 4],
        calls := calls mono200 @ [ResamplerProcess [1, 2, 3, 4] 4 960] \<rparr>))"
proof -
  have a: "flush M_bad_resampler mono200 =
     Inl (ResamplingError, mono200\<lparr> calls := calls mono200 @ [ResamplerProcess [0, 0, 0, 0] 4 960] \<rparr>)"
    by (simp add: flush_def Let_def M_bad_resampler_def M_ok_def mono200_def
      RESAMPLER_ERR_SUCCESS_def)
  have b: "ready mono200" "length [[1, 2, 3, 4 :: int]] = channelCount mono200"
    by (simp_all add: ready_def mono200_def capacity_def)
  have c: "encode M_bad_resampler mono200 [[1, 2, 3, 4]] False =
     Some (Inl (ResamplingError, mono200\<lparr> inputBufferIndex := 4, mInputBuffer := [1, 2, 3, 4],
        calls := calls mono200 @ [ResamplerProcess [1, 2, 3, 4] 4 960] \<rparr>))"
    by (simp add: eval_defs M_bad_resampler_def M_ok_def mono200_def)
  have d: "opus_encode_float M_bad_encoder (calls mono200 @ [ResamplerProcess (mInputBuffer mono200)
         (inputSamplesPerChannel mono200) (outputSamplePerChannel mono200)]) < 0"
    "speex_resampler_process_interleaved_float M_bad_encoder (calls mono200) (mInputBuffer mono200)
        = RESAMPLER_ERR_SUCCESS"
    "speex_resampler_process_interleaved_float M_ok (calls mono200) (mInputBuffer mono200)
        = RESAMPLER_ERR_SUCCESS"
    "0 \<le> opus_encode_float M_ok (calls mono200 @ [ResamplerProcess (mInputBuffer mono200)
         (inputSamplesPerChannel mono200) (outputSamplePerChannel mono200)])"
    by (simp_all add: M_bad_encoder_def M_ok_def RESAMPLER_ERR_SUCCESS_def)
  from a C7_flush_raises_iff [of M_bad_resampler mono200]
  have e: "speex_resampler_process_interleaved_float M_bad_resampler (calls mono200) (mInputBuffer mono200)
     \<noteq> RESAMPLER_ERR_SUCCESS" by blast
  from d C7_flush_raises_iff [of M_bad_encoder mono200]
  have f: "\<exists>s'. flush M_bad_encoder mono200 = Inl (OpusEncodingError, s')" by blast
  from d C7_flush_raises_iff [of M_ok mono200]
  have g: "\<exists>s'. flush M_ok mono200 = Inr s'" by blast
  show ?thesis using a b c e f g by blast
qed

subsection \<open>C8: the flag final\<close>

text \<open>
  Claim C8. For every module, worker and input, \<^verbatim>\<open>encode\<close> with \<^verbatim>\<open>final = true\<close> yields
  exactly the outcome and the worker that \<^verbatim>\<open>encode\<close> with \<^verbatim>\<open>final = false\<close> yields: the
  flag forces no flush of a partly filled staging buffer and nothing else.
\<close>

theorem C8_final_flag_has_no_effect:
  "encode M s buffers True = encode M s buffers False"
  by (simp add: encode_def split: sum.split prod.split option.split)

subsection \<open>C9: one channel\<close>

text \<open>
  Claim C9. When the worker has one channel and is given one channel buffer,
  \<^verbatim>\<open>interleave\<close> returns that buffer itself and leaves the worker untouched (nothing is
  copied into a scratch buffer), and a call of \<^verbatim>\<open>encode\<close> that returns has appended exactly
  the samples of that buffer, in order, to the stream of the worker: the frames handed to the
  resampler during the call followed by what is staged afterwards are what was staged before
  followed by the input. With a staging buffer of positive capacity the call ends.
\<close>

theorem C9_single_channel_identity:
  assumes "channelCount s = 1" and "length buffers = channelCount s"
    and "inputBufferIndex s \<le> capacity s"
  shows "interleave s buffers = Inr (Some (hd buffers), s) \<and>
         (\<forall>s'. encode M s buffers final = Some (Inr s') \<longrightarrow>
              stream s' = stream s @ hd buffers \<and>
              concat (frames (added s s')) @ staged s' = staged s @ hd buffers) \<and>
         (0 < capacity s \<longrightarrow> (\<exists>y. encode M s buffers final = Some y))"
proof -
  have il: "interleave s buffers = Inr (Some (hd buffers), s)"
    using assms(1,2) by (simp add: interleave_single)
  have "stream s' = stream s @ hd buffers \<and>
        concat (frames (added s s')) @ staged s' = staged s @ hd buffers"
    if "encode M s buffers final = Some (Inr s')" for s'
  proof -
    from encode_post[OF il assms(3) that] have f: "fed s (hd buffers) s'" by simp
    then show ?thesis using fed_added(4)[OF f] by (simp add: fed_def)
  qed
  moreover have "0 < capacity s \<longrightarrow> (\<exists>y. encode M s buffers final = Some y)"
    using encode_terminates[OF _ assms(3)] by blast
  ultimately show ?thesis using il by blast
qed

text \<open>
  Six samples fed to the one-channel worker with a frame of four samples.
\<close>

theorem C9_single_channel_identity_witness:
  "channelCount mono200 = 1 \<and> length [[1, 2, 3, 4, 5, 6 :: int]] = channelCount mono200 \<and>
   inputBufferIndex mono200 \<le> capacity mono200 \<and>
   interleave mono200 [[1, 2, 3, 4, 5, 6]] = Inr (Some [1, 2, 3, 4, 5, 6], mono200) \<and>
   encode M_ok mono200 [[1, 2, 3, 4, 5, 6]] False = Some (Inr mono200_fed) \<and>
   stream mono200_fed = stream mono200 @ [1, 2, 3, 4, 5, 6] \<and>
   stream mono200_fed = [1, 2, 3, 4, 5, 6]"
proof -
  have a: "channelCount mono200 = 1" by (simp add: mono200_def)
  have b: "length [[1, 2, 3, 4, 5, 6 :: int]] = channelCount mono200" by (simp add: mono200_def)
  have c: "inputBufferIndex mono200 \<le> capacity mono200" by (simp add: mono200_def capacity_def)
  have d: "stream mono200_fed = [1, 2, 3, 4, 5, 6]"
    by (simp add: stream_def staged_def mono200_fed_def mono200_def)
  show ?thesis
    using a b c d mono200_feed_six C9_single_channel_identity [OF a b c, of M_ok False]
    by simp
qed

subsection \<open>C10: closing the worker\<close>

text \<open>
  Claim C10 counts five owned resources. After a successful \<^verbatim>\<open>encode\<close> on the one-channel
  worker, \<^verbatim>\<open>close\<close> releases six: the container writer, the three buffers, the encoder and
  the resampler.
\<close>

theorem C10_counterexample:
  "encode M_ok mono200 [[1, 2, 3, 4, 5, 6]] False = Some (Inr mono200_fed) \<and>
   released (added mono200_fed (close mono200_fed)) =
     [ContainerWriter, InputBuffer, ResampledBuffer, OutputBuffer, OpusEncoder, SpeexResampler] \<and>
   length (released (added mono200_fed (close mono200_fed))) \<noteq> 5"
  by (simp add: eval_defs M_ok_def mono200_def mono200_fed_def close_def added_def)

text \<open>
  Claim C10, as amended. On a worker that the constructor returned and that any number of
  successful \<^verbatim>\<open>encode\<close> calls have fed, all six native resources are held; \<^verbatim>\<open>close\<close> throws
  nothing and releases exactly these six, each once, in the order container writer, staging
  buffer, resampled buffer, output buffer, encoder, resampler; afterwards none of them is
  held, so that any later call on the worker would use a released resource. \<^verbatim>\<open>close\<close>
  changes no field of the worker: the code records no closed state.
\<close>

theorem C10_close_releases_six:
  assumes "WebMOpusWorker M rate ch bps = Inr s0"
    and "feed_all M s0 inputs = Some (Inr s)"
  shows "live (calls s) = {ContainerWriter, OpusEncoder, SpeexResampler,
                           InputBuffer, ResampledBuffer, OutputBuffer} \<and>
         added s (close s) = [Release ContainerWriter, Release InputBuffer,
                              Release ResampledBuffer, Release OutputBuffer,
                              Release OpusEncoder, Release SpeexResampler] \<and>
         calls (close s) = calls s @ added s (close s) \<and>
         released (calls (close s)) = [ContainerWriter, InputBuffer, ResampledBuffer,
                                       OutputBuffer, OpusEncoder, SpeexResampler] \<and>
         live (calls (close s)) = {} \<and>
         close s = s\<lparr> calls := calls (close s) \<rparr>"
proof -
  from feed_all_calls[OF constructor_ready[OF assms(1)] assms(2)]
  obtain new where new: "calls s = calls s0 @ new" "cycles new" by blast
  have l: "live (calls s) = {ContainerWriter, OpusEncoder, SpeexResampler,
                           InputBuffer, ResampledBuffer, OutputBuffer}"
    using constructor_Inr(5)[OF assms(1)] new by (simp add: live_append_cycles)
  have r: "released (calls s) = []"
    using constructor_released[OF assms(1)] new by (simp add: released_append released_cycles)
  have l': "live (calls (close s)) = {}"
    using l by (auto simp: close_def live_def)
  show ?thesis
    using l r l' by (simp add: close_def added_def released_append)
qed

text \<open>
  The one-channel worker, constructed, fed six samples and closed.
\<close>

theorem C10_close_releases_six_witness:
  "WebMOpusWorker M_ok 200 1 None = Inr mono200 \<and>
   feed_all M_ok mono200 [([[1, 2, 3, 4, 5, 6]], False)] = Some (Inr mono200_fed) \<and>
   live (calls (close mono200_fed)) = {} \<and>
   released (calls (close mono200_fed)) = [ContainerWriter, InputBuffer, ResampledBuffer,
                                       OutputBuffer, OpusEncoder, SpeexResampler]"
proof -
  have a: "WebMOpusWorker M_ok 200 1 None = Inr mono200" by (rule mono200_constructed)
  have b: "feed_all M_ok mono200 [([[1, 2, 3, 4, 5, 6]], False)] = Some (Inr mono200_fed)"
    by (simp add: mono200_feed_six)
  show ?thesis using a b C10_close_releases_six [OF a b] by blast
qed

end
